theory Spec2Isabelle
  imports Main "HOL-Library.AList" "HOL-Library.Sublist"
begin

unbundle bit_operations_syntax

section \<open>Fingerprint distance (automation/fingerprint.py)\<close>

text \<open>
  Python's \<^verbatim>\<open>bin(x)\<close>: the prefix \<^verbatim>\<open>0b\<close> (with a leading minus sign for a
  negative argument) followed by the binary digits of the absolute value, most
  significant first; zero prints as the single digit 0.
\<close>

fun bin_digits :: "nat \<Rightarrow> string" where
  "bin_digits n =
     (if n < 2 then [if n = 0 then CHR ''0'' else CHR ''1'']
      else bin_digits (n div 2) @ [if n mod 2 = 0 then CHR ''0'' else CHR ''1''])"

declare bin_digits.simps [simp del]

definition bin :: "int \<Rightarrow> string" where
  "bin x = (if x < 0 then ''-0b'' else ''0b'') @ bin_digits (nat \<bar>x\<bar>)"

text \<open>\<^verbatim>\<open>str.count\<close> for a pattern of one character.\<close>

definition count_str :: "string \<Rightarrow> char \<Rightarrow> int" where
  "count_str s c = int (length (filter (\<lambda>d. d = c) s))"

text \<open>\<^verbatim>\<open>return bin(a ^ b).count("1")\<close>\<close>

definition hamming_distance :: "int \<Rightarrow> int \<Rightarrow> int" where
  "hamming_distance a b = count_str (bin (a XOR b)) CHR ''1''"

section \<open>Memoization cache (automation/cache.py)\<close>

text \<open>
  Modelled from the spec: the module \<^verbatim>\<open>iphoneclaw/types.py\<close> is not part of the
  sources at hand. \<open>PredictionParsed\<close> is the parsed action record; the fields are
  the ones the loop, the router and the tests read.
\<close>

record PredictionParsed =
  action_type :: string
  action_inputs :: "(string \<times> string) list"
  thought :: string
  raw_action :: string

record L0CacheEntry =
  fingerprint :: int
  actions :: "PredictionParsed list"
  post_fingerprint :: "int option"
  hit_count :: int
  last_step :: int
  succeeded :: bool

text \<open>
  Cache entries are mutable objects that the caller holds by reference: \<open>lookup\<close>
  hands out the object stored in the dictionary, and \<open>record_hit\<close> and
  \<open>mark_failed\<close> mutate whatever object they are given, whether or not the
  dictionary still holds it. The model keeps an explicit store \<open>heap\<close> of all entry
  objects allocated so far (a reference is an index into it) and the dictionary
  \<open>entries\<close> as an association list from fingerprint to reference, in insertion
  order, which is the iteration order of a Python dictionary.
\<close>

type_synonym ref = nat

record L0Cache =
  hash_threshold :: int
  max_reuse :: int
  max_entries :: int
  entries :: "(int \<times> ref) list"
  heap :: "L0CacheEntry list"

datatype error = ValueError | KeyError | IndexError | Full | Failure string

definition L0Cache_init :: "int \<Rightarrow> int \<Rightarrow> int \<Rightarrow> L0Cache" where
  "L0Cache_init ht mr me =
     \<lparr>hash_threshold = ht, max_reuse = mr, max_entries = me, entries = [], heap = []\<rparr>"

text \<open>The body of the \<^verbatim>\<open>for entry in self._entries.values()\<close> loop of \<open>lookup\<close>.\<close>

fun lookup_loop :: "L0Cache \<Rightarrow> int \<Rightarrow> ref list \<Rightarrow> ref option \<Rightarrow> int \<Rightarrow> ref option" where
  "lookup_loop c fp [] best best_dist = best"
| "lookup_loop c fp (r # rs) best best_dist =
     (let entry = heap c ! r in
      if \<not> succeeded entry then lookup_loop c fp rs best best_dist
      else if hit_count entry \<ge> max_reuse c then lookup_loop c fp rs best best_dist
      else let dist = hamming_distance fp (fingerprint entry) in
        if dist < best_dist then lookup_loop c fp rs (Some r) dist
        else lookup_loop c fp rs best best_dist)"

definition lookup :: "L0Cache \<Rightarrow> int \<Rightarrow> ref option" where
  "lookup c fp = lookup_loop c fp (map snd (entries c)) None (hash_threshold c + 1)"

definition record_hit :: "L0Cache \<Rightarrow> ref \<Rightarrow> int \<Rightarrow> L0Cache" where
  "record_hit c r step =
     c\<lparr>heap := (heap c)[r := (heap c ! r)\<lparr>hit_count := hit_count (heap c ! r) + 1,
                                          last_step := step\<rparr>]\<rparr>"

text \<open>
  \<^verbatim>\<open>min(iterable, key=f)\<close>: raises \<^verbatim>\<open>ValueError\<close> on an empty iterable, and
  otherwise keeps the first element whose key is smallest (a later element replaces
  the current one only when its key is strictly smaller).
\<close>

fun min_loop :: "('a \<Rightarrow> int) \<Rightarrow> 'a list \<Rightarrow> 'a \<Rightarrow> 'a" where
  "min_loop f [] best = best"
| "min_loop f (x # xs) best = (if f x < f best then min_loop f xs x else min_loop f xs best)"

definition min_by :: "('a \<Rightarrow> int) \<Rightarrow> 'a list \<Rightarrow> error + 'a" where
  "min_by f xs = (case xs of [] \<Rightarrow> Inl ValueError | x # rest \<Rightarrow> Inr (min_loop f rest x))"

text \<open>
  \<^verbatim>\<open>self._entries[fp]\<close> for a key of the dictionary. \<open>store\<close> calls it only on
  keys it is iterating over, so the key is present.
\<close>

definition getitem :: "L0Cache \<Rightarrow> int \<Rightarrow> L0CacheEntry" where
  "getitem c k = heap c ! the (map_of (entries c) k)"

definition new_entry :: "int \<Rightarrow> PredictionParsed list \<Rightarrow> int option \<Rightarrow> int \<Rightarrow> L0CacheEntry" where
  "new_entry fp acts post step =
     \<lparr>fingerprint = fp, actions = acts, post_fingerprint = post, hit_count = 0,
      last_step = step, succeeded = True\<rparr>"

text \<open>The assignment \<^verbatim>\<open>self._entries[fingerprint] = L0CacheEntry(...)\<close>: a new object.\<close>

definition setitem_new :: "L0Cache \<Rightarrow> int \<Rightarrow> L0CacheEntry \<Rightarrow> L0Cache" where
  "setitem_new c k e =
     c\<lparr>entries := AList.update k (length (heap c)) (entries c), heap := heap c @ [e]\<rparr>"

definition store ::
  "L0Cache \<Rightarrow> int \<Rightarrow> PredictionParsed list \<Rightarrow> int option \<Rightarrow> int \<Rightarrow> error + L0Cache" where
  "store c fp acts post step =
     (if int (length (entries c)) \<ge> max_entries c \<and> fp \<notin> set (map fst (entries c)) then
        (case min_by (\<lambda>k. last_step (getitem c k)) (map fst (entries c)) of
           Inl e \<Rightarrow> Inl e
         | Inr oldest_fp \<Rightarrow>
             Inr (setitem_new (c\<lparr>entries := AList.delete oldest_fp (entries c)\<rparr>) fp
                    (new_entry fp acts post step)))
      else Inr (setitem_new c fp (new_entry fp acts post step)))"

definition evict :: "L0Cache \<Rightarrow> ref \<Rightarrow> L0Cache" where
  "evict c r = c\<lparr>entries := AList.delete (fingerprint (heap c ! r)) (entries c)\<rparr>"

definition mark_failed :: "L0Cache \<Rightarrow> ref \<Rightarrow> L0Cache" where
  "mark_failed c r = c\<lparr>heap := (heap c)[r := (heap c ! r)\<lparr>succeeded := False\<rparr>]\<rparr>"

section \<open>Memoization router (automation/router.py)\<close>

text \<open>
  The router owns one cache. Its \<open>status_bar_frac\<close> is read only by the image
  fingerprint, which takes the pixels from the platform's image decoder and is not
  modelled; fingerprints enter the model as the optional integers the router receives.
\<close>

record L0Router =
  cache :: L0Cache

text \<open>\<open>__init__\<close>: the cache takes the two parameters and the default \<open>max_entries\<close>.\<close>

definition L0Router_init :: "int \<Rightarrow> int \<Rightarrow> L0Router" where
  "L0Router_init ht mr = \<lparr>cache = L0Cache_init ht mr 256\<rparr>"

definition UNCACHEABLE_ACTIONS :: "string list" where
  "UNCACHEABLE_ACTIONS = [''finished'', ''call_user'', ''error_env'']"

definition try_cache :: "L0Router \<Rightarrow> int option \<Rightarrow> int \<Rightarrow> ref option" where
  "try_cache rt fp step = (case fp of None \<Rightarrow> None | Some f \<Rightarrow> lookup (cache rt) f)"

definition verify_and_commit ::
  "L0Router \<Rightarrow> ref \<Rightarrow> int option \<Rightarrow> int \<Rightarrow> bool \<Rightarrow> L0Router \<times> bool" where
  "verify_and_commit rt entry post_fp step success =
     (if \<not> success then (rt\<lparr>cache := mark_failed (cache rt) entry\<rparr>, False)
      else if post_fp \<noteq> None \<and> post_fp = Some (fingerprint (heap (cache rt) ! entry))
        then (rt\<lparr>cache := evict (cache rt) entry\<rparr>, False)
      else (rt\<lparr>cache := record_hit (cache rt) entry step\<rparr>, True))"

definition should_cache_actions :: "PredictionParsed list \<Rightarrow> bool" where
  "should_cache_actions acts =
     (if acts = [] then False
      else list_all (\<lambda>a. action_type a \<notin> set UNCACHEABLE_ACTIONS) acts)"

definition router_record ::
  "L0Router \<Rightarrow> int option \<Rightarrow> PredictionParsed list \<Rightarrow> int option \<Rightarrow> int \<Rightarrow> error + L0Router" where
  "router_record rt fp acts post_fp step =
     (case fp of
        None \<Rightarrow> Inr rt
      | Some f \<Rightarrow>
          if \<not> should_cache_actions acts then Inr rt
          else (case store (cache rt) f acts post_fp step of
                  Inl e \<Rightarrow> Inl e
                | Inr c' \<Rightarrow> Inr (rt\<lparr>cache := c'\<rparr>)))"

text \<open>
  An entry is eligible when it has not failed and has reuse budget left; \<open>dist_to\<close>
  is its distance to the queried fingerprint. Both read the entry object through its
  reference, as the loop of \<open>lookup\<close> does.
\<close>

definition eligible :: "L0Cache \<Rightarrow> ref \<Rightarrow> bool" where
  "eligible c r \<longleftrightarrow> succeeded (heap c ! r) \<and> hit_count (heap c ! r) < max_reuse c"

definition dist_to :: "L0Cache \<Rightarrow> int \<Rightarrow> ref \<Rightarrow> int" where
  "dist_to c fp r = hamming_distance fp (fingerprint (heap c ! r))"

text \<open>
  The dictionary invariant of the cache: keys are unique, every value is an allocated
  entry object, and that object's \<open>fingerprint\<close> field is the key it is stored under.
\<close>

definition cache_wf :: "L0Cache \<Rightarrow> bool" where
  "cache_wf c \<longleftrightarrow>
     distinct (map fst (entries c)) \<and>
     list_all (\<lambda>(k, r). r < length (heap c) \<and> fingerprint (heap c ! r) = k) (entries c)"

text \<open>No entry object has a negative hit count.\<close>

definition hits_nonneg :: "L0Cache \<Rightarrow> bool" where
  "hits_nonneg c \<longleftrightarrow> list_all (\<lambda>e. 0 \<le> hit_count e) (heap c)"

text \<open>A sequence of \<open>store\<close> calls, as the capacity tests issue them; the first error ends it.\<close>

fun store_seq ::
  "L0Cache \<Rightarrow> (int \<times> PredictionParsed list \<times> int option \<times> int) list \<Rightarrow> error + L0Cache" where
  "store_seq c [] = Inr c"
| "store_seq c ((fp, acts, post, step) # rest) =
     (case store c fp acts post step of Inl e \<Rightarrow> Inl e | Inr c' \<Rightarrow> store_seq c' rest)"

definition pred_click :: PredictionParsed where
  "pred_click =
     \<lparr>action_type = ''click'', action_inputs = [(''start_box'', ''(500,500)'')],
      thought = ''test'', raw_action = ''click(start_box=(500,500))''\<rparr>"

text \<open>The cache of the reuse test after its single \<open>store\<close> call.\<close>

definition cache_one :: L0Cache where
  "cache_one =
     \<lparr>hash_threshold = 5, max_reuse = 2, max_entries = 256, entries = [(1000, 0)],
      heap = [new_entry 1000 [pred_click] (Some 2000) 1]\<rparr>"

text \<open>The cache of the capacity test after its first three \<open>store\<close> calls.\<close>

definition cache_three :: L0Cache where
  "cache_three =
     \<lparr>hash_threshold = 0, max_reuse = 3, max_entries = 3,
      entries = [(100, 0), (200, 1), (300, 2)],
      heap = [new_entry 100 [pred_click] (Some 200) 1, new_entry 200 [pred_click] (Some 300) 2,
              new_entry 300 [pred_click] (Some 400) 3]\<rparr>"

definition router_one :: L0Router where
  "router_one = \<lparr>cache = cache_one\<rparr>"

text \<open>
  A cache built with \<open>max_reuse = 0\<close> after one \<open>store\<close>, and the same cache after
  that entry was marked failed and the key stored again.
\<close>

definition cache_no_budget :: L0Cache where
  "cache_no_budget =
     \<lparr>hash_threshold = 5, max_reuse = 0, max_entries = 256, entries = [(1000, 0)],
      heap = [new_entry 1000 [pred_click] (Some 2000) 1]\<rparr>"

definition cache_no_budget_again :: L0Cache where
  "cache_no_budget_again =
     \<lparr>hash_threshold = 5, max_reuse = 0, max_entries = 256, entries = [(1000, 1)],
      heap = [(new_entry 1000 [pred_click] (Some 2000) 1)\<lparr>succeeded := False\<rparr>,
              new_entry 1000 [pred_click] (Some 3000) 5]\<rparr>"

section \<open>Control state (supervisor/state.py)\<close>

text \<open>
  Modelled from the spec: the enumeration \<open>StatusEnum\<close> of \<^verbatim>\<open>iphoneclaw/types.py\<close> is
  not part of the sources at hand. Its members are the ones that \<^verbatim>\<open>state.py\<close> and
  \<^verbatim>\<open>loop.py\<close> name.
\<close>

datatype StatusEnum = INIT | RUNNING | PAUSE | HANG | USER_STOPPED | ERROR | END | CALL_USER

record WorkerControl =
  status :: StatusEnum
  paused :: bool
  stopped :: bool
  injected :: "string list"

text \<open>
  Every method body runs under the object's lock, so each method is one atomic step on
  the record; calls from several threads are some interleaving of such steps.
\<close>

definition WorkerControl_init :: WorkerControl where
  "WorkerControl_init = \<lparr>status = INIT, paused = False, stopped = False, injected = []\<rparr>"

definition pause :: "WorkerControl \<Rightarrow> WorkerControl" where
  "pause w = (let w1 = w\<lparr>paused := True\<rparr> in
              if status w1 = RUNNING then w1\<lparr>status := PAUSE\<rparr> else w1)"

definition resume :: "WorkerControl \<Rightarrow> WorkerControl" where
  "resume w = (let w1 = w\<lparr>paused := False\<rparr> in
               if status w1 = PAUSE \<or> status w1 = HANG then w1\<lparr>status := RUNNING\<rparr> else w1)"

definition stop :: "WorkerControl \<Rightarrow> WorkerControl" where
  "stop w = w\<lparr>stopped := True, status := USER_STOPPED\<rparr>"

definition set_status :: "WorkerControl \<Rightarrow> StatusEnum \<Rightarrow> WorkerControl" where
  "set_status w s =
     (if stopped w then w\<lparr>status := USER_STOPPED\<rparr>
      else if paused w \<and> s = RUNNING then w
      else w\<lparr>status := s\<rparr>)"

definition inject :: "WorkerControl \<Rightarrow> string \<Rightarrow> WorkerControl" where
  "inject w t = w\<lparr>injected := injected w @ [t]\<rparr>"

definition pop_injected :: "WorkerControl \<Rightarrow> string option \<times> WorkerControl" where
  "pop_injected w =
     (case injected w of
        [] \<Rightarrow> (None, w)
      | t # rest \<Rightarrow> (Some t, w\<lparr>injected := rest\<rparr>))"

text \<open>The operations a caller can apply, and a run of them in order.\<close>

datatype ctl_op = Pause | Resume | Stop | SetStatus StatusEnum | Inject string | PopInjected

fun apply_op :: "WorkerControl \<Rightarrow> ctl_op \<Rightarrow> WorkerControl" where
  "apply_op w Pause = pause w"
| "apply_op w Resume = resume w"
| "apply_op w Stop = stop w"
| "apply_op w (SetStatus s) = set_status w s"
| "apply_op w (Inject t) = inject w t"
| "apply_op w PopInjected = snd (pop_injected w)"

definition apply_ops :: "WorkerControl \<Rightarrow> ctl_op list \<Rightarrow> WorkerControl" where
  "apply_ops w ops = foldl apply_op w ops"

section \<open>Conversation window (agent/conversation.py)\<close>

text \<open>
  A conversation item. The time stamp is an opaque clock reading (a natural number
  here); the field \<open>text\<close> is named \<open>item_text\<close>; the metadata dictionary is kept as a list of key and value texts.
\<close>

record ConversationItem =
  role :: string
  item_text :: string
  ts :: nat
  meta :: "(string \<times> string) list"

record ConversationStore =
  items :: "ConversationItem list"

definition ConversationStore_init :: ConversationStore where
  "ConversationStore_init = \<lparr>items = []\<rparr>"

definition add ::
  "ConversationStore \<Rightarrow> string \<Rightarrow> string \<Rightarrow> nat \<Rightarrow> (string \<times> string) list \<Rightarrow> ConversationStore" where
  "add s r t now m = s\<lparr>items := items s @ [\<lparr>role = r, item_text = t, ts = now, meta = m\<rparr>]\<rparr>"

text \<open>
  The loop \<^verbatim>\<open>for i in range(len(items) - 1, -1, -1)\<close> of \<open>_tail_items_by_rounds\<close>:
  \<open>scan_back its n j seen\<close> has the indices below \<open>j\<close> left to visit, from
  \<open>j - 1\<close> downwards, and returns the value of \<open>start_idx\<close> after the loop,
  which is 0 when the loop ends without a \<^verbatim>\<open>break\<close>.
\<close>

fun scan_back :: "ConversationItem list \<Rightarrow> int \<Rightarrow> nat \<Rightarrow> int \<Rightarrow> nat" where
  "scan_back its tail_rounds 0 assistant_seen = 0"
| "scan_back its tail_rounds (Suc i) assistant_seen =
     (if role (its ! i) = ''assistant'' then
        (if assistant_seen + 1 \<ge> tail_rounds then i
         else scan_back its tail_rounds i (assistant_seen + 1))
      else scan_back its tail_rounds i assistant_seen)"

definition tail_items_by_rounds :: "ConversationStore \<Rightarrow> int \<Rightarrow> ConversationItem list" where
  "tail_items_by_rounds s tail_rounds =
     (let its = items s;
          start_idx = scan_back its tail_rounds (length its) 0;
          start_idx =
            (if start_idx > 0 \<and> role (its ! start_idx) = ''assistant'' then
               (if role (its ! (start_idx - 1)) = ''user'' then start_idx - 1 else start_idx)
             else start_idx)
      in if its \<noteq> [] then drop start_idx its else [])"

definition to_openai_messages :: "ConversationStore \<Rightarrow> bool \<Rightarrow> int \<Rightarrow> (string \<times> string) list" where
  "to_openai_messages s include_system tail_rounds =
     map (\<lambda>it. (role it, item_text it))
       (filter (\<lambda>it. \<not> (role it = ''system'' \<and> \<not> include_system))
          (tail_items_by_rounds s tail_rounds))"

text \<open>The number of assistant turns in a list of items.\<close>

definition assistant_turns :: "ConversationItem list \<Rightarrow> int" where
  "assistant_turns its = int (length (filter (\<lambda>it. role it = ''assistant'') its))"

definition turn :: "string \<Rightarrow> string \<Rightarrow> ConversationItem" where
  "turn r t = \<lparr>role = r, item_text = t, ts = 0, meta = []\<rparr>"

text \<open>The log of the windowing example: system, user1, assistant1, user2, assistant2.\<close>

definition example_log :: ConversationStore where
  "example_log =
     \<lparr>items = [turn ''system'' ''sys'', turn ''user'' ''user1'', turn ''assistant'' ''assistant1'',
               turn ''user'' ''user2'', turn ''assistant'' ''assistant2'']\<rparr>"

section \<open>Event hub (supervisor/hub.py)\<close>

text \<open>
  Modelled from the spec: \<open>SupervisorEvent\<close> of \<^verbatim>\<open>iphoneclaw/types.py\<close> is not part of
  the sources at hand; it has the three fields the hub fills in. Values of the data
  dictionary are texts, integers, a status value or \<^verbatim>\<open>None\<close>. The time stamp is a
  clock reading handed to \<open>publish\<close>.
\<close>

datatype jval = JStr string | JInt int | JStatus StatusEnum | JNone

type_synonym jdict = "(string \<times> jval) list"

record SupervisorEvent =
  evt_type :: string
  evt_data :: jdict
  evt_ts :: nat

text \<open>
  The standard library's \<^verbatim>\<open>queue.Queue\<close>: \<^verbatim>\<open>put_nowait\<close> raises \<^verbatim>\<open>Full\<close> when
  \<open>maxsize\<close> is positive and the queue holds that many items, and appends otherwise.
\<close>

record Queue =
  maxsize :: int
  queue_items :: "SupervisorEvent list"

definition full :: "Queue \<Rightarrow> bool" where
  "full q \<longleftrightarrow> 0 < maxsize q \<and> maxsize q \<le> int (length (queue_items q))"

definition put_nowait :: "Queue \<Rightarrow> SupervisorEvent \<Rightarrow> error + Queue" where
  "put_nowait q x = (if full q then Inl Full else Inr (q\<lparr>queue_items := queue_items q @ [x]\<rparr>))"

text \<open>
  The hub keeps references to the queues of its subscribers; every \<open>subscribe\<close> makes
  a new queue object. A subscription is the pair of the queue's identity (a handle,
  taken from a counter) and the queue's present content.
\<close>

record SupervisorHub =
  subs :: "(nat \<times> Queue) list"
  next_handle :: nat
  last_status :: jdict

definition SupervisorHub_init :: SupervisorHub where
  "SupervisorHub_init = \<lparr>subs = [], next_handle = 0, last_status = [(''status'', JStr ''init'')]\<rparr>"

definition subscribe :: "SupervisorHub \<Rightarrow> nat \<times> SupervisorHub" where
  "subscribe h =
     (next_handle h,
      h\<lparr>subs := subs h @ [(next_handle h, \<lparr>maxsize = 1000, queue_items = []\<rparr>)],
        next_handle := Suc (next_handle h)\<rparr>)"

definition unsubscribe :: "SupervisorHub \<Rightarrow> nat \<Rightarrow> SupervisorHub" where
  "unsubscribe h q = h\<lparr>subs := filter (\<lambda>x. fst x \<noteq> q) (subs h)\<rparr>"

text \<open>
  The loop of \<open>publish\<close>: \<^verbatim>\<open>for q in subs: try: q.put_nowait(evt) except Exception: pass\<close>.
  An exception of the body would end the loop; the handler turns every one into a
  normal completion that leaves the queue as it was.
\<close>

definition try_put :: "Queue \<Rightarrow> SupervisorEvent \<Rightarrow> error + Queue" where
  "try_put q evt = (case put_nowait q evt of Inl e \<Rightarrow> Inr q | Inr q' \<Rightarrow> Inr q')"

fun publish_loop :: "SupervisorEvent \<Rightarrow> (nat \<times> Queue) list \<Rightarrow> error + (nat \<times> Queue) list" where
  "publish_loop evt [] = Inr []"
| "publish_loop evt ((h, q) # rest) =
     (case try_put q evt of
        Inl e \<Rightarrow> Inl e
      | Inr q' \<Rightarrow>
          (case publish_loop evt rest of
             Inl e \<Rightarrow> Inl e
           | Inr rest' \<Rightarrow> Inr ((h, q') # rest')))"

text \<open>\<^verbatim>\<open>data or {}\<close>: \<^verbatim>\<open>None\<close> and the empty dictionary both give the empty dictionary.\<close>

definition data_or_empty :: "jdict option \<Rightarrow> jdict" where
  "data_or_empty d = (case d of None \<Rightarrow> [] | Some m \<Rightarrow> if m = [] then [] else m)"

definition mk_event :: "string \<Rightarrow> jdict option \<Rightarrow> nat \<Rightarrow> SupervisorEvent" where
  "mk_event ty d now = \<lparr>evt_type = ty, evt_data = data_or_empty d, evt_ts = now\<rparr>"

definition publish :: "SupervisorHub \<Rightarrow> string \<Rightarrow> jdict option \<Rightarrow> nat \<Rightarrow> error + SupervisorHub" where
  "publish h ty d now =
     (case publish_loop (mk_event ty d now) (subs h) of
        Inl e \<Rightarrow> Inl e
      | Inr subs' \<Rightarrow> Inr (h\<lparr>subs := subs'\<rparr>))"

definition hub_set_status :: "SupervisorHub \<Rightarrow> jval \<Rightarrow> jdict \<Rightarrow> nat \<Rightarrow> error + SupervisorHub" where
  "hub_set_status h st extra now =
     (let h1 = h\<lparr>last_status := AList.updates (map fst extra) (map snd extra) [(''status'', st)]\<rparr>
      in publish h1 ''status'' (Some (last_status h1)) now)"

definition get_status :: "SupervisorHub \<Rightarrow> jdict" where
  "get_status h = last_status h"

text \<open>A hub with two subscribers; the first one's queue, of capacity 1, is full.\<close>

definition hub_two :: SupervisorHub where
  "hub_two =
     \<lparr>subs = [(0, \<lparr>maxsize = 1, queue_items = [mk_event ''status'' None 1]\<rparr>),
              (1, \<lparr>maxsize = 1000, queue_items = []\<rparr>)],
      next_handle = 2, last_status = [(''status'', JStr ''init'')]\<rparr>"

text \<open>
  The hub after an event has been offered to every subscriber: it is appended to each
  queue that has space and dropped for each full one.
\<close>

definition delivered :: "SupervisorEvent \<Rightarrow> SupervisorHub \<Rightarrow> SupervisorHub" where
  "delivered evt h =
     h\<lparr>subs := map (\<lambda>(k, q). (k, if full q then q else q\<lparr>queue_items := queue_items q @ [evt]\<rparr>))
                 (subs h)\<rparr>"

text \<open>The status dictionary \<^verbatim>\<open>{"status": status, **extra}\<close> and the hub after \<open>set_status\<close>.\<close>

definition status_dict :: "jval \<Rightarrow> jdict \<Rightarrow> jdict" where
  "status_dict st extra = AList.updates (map fst extra) (map snd extra) [(''status'', st)]"

definition status_published :: "jval \<Rightarrow> jdict \<Rightarrow> nat \<Rightarrow> SupervisorHub \<Rightarrow> SupervisorHub" where
  "status_published st extra t h =
     delivered (mk_event ''status'' (Some (status_dict st extra)) t)
       (h\<lparr>last_status := status_dict st extra\<rparr>)"

section \<open>Agent loop (agent/loop.py)\<close>

text \<open>
  Modelled from the spec: \<open>Config\<close> (\<^verbatim>\<open>iphoneclaw/config.py\<close>), \<open>ScreenshotOutput\<close> and
  \<open>InvokeResult\<close> (\<^verbatim>\<open>iphoneclaw/types.py\<close>) are not part of the sources at hand; the
  records have the fields that \<open>Worker.run\<close> reads.
\<close>

record Config =
  max_loop_count :: int
  hang_on_finished :: bool
  hang_on_call_user :: bool
  auto_pause_on_user_input :: bool

record ScreenshotOutput =
  base64 :: string
  image_width :: int
  image_height :: int

record InvokeResult =
  prediction :: string
  parsed_predictions :: "PredictionParsed list"
  cost_tokens :: int

datatype message = TextMsg string string | VisionMsg string string string

text \<open>
  The collaborators of the loop (screen capture, recorder, image resizing, model
  invocation, window activation, action execution, the clock and the input monitor)
  are outside the model. Each call the loop makes to one of them is appended to the
  worker's \<open>calls\<close>; what the call returns or raises in a given cycle comes from
  that cycle's environment. The recorder writes files without guarding against
  failure, and the sleep at the end of the body takes its length from the
  configuration: \<open>fails\<close> gives, for each such call, the exception it raises in
  this cycle, if any. \<open>polls\<close> lists what other threads do to the control object
  during each successive \<^verbatim>\<open>time.sleep(0.2)\<close> of the pause gate; all time stamps of
  one cycle are the one clock reading \<open>clock\<close>.
\<close>

datatype call =
    Capture
  | WriteStep int string
  | LogConversation string string
  | LogEvent string
  | SmartResize int int
  | ResizeJpeg int int
  | InvokeModel "message list"
  | ActivateApp
  | ExecuteAction PredictionParsed
  | Sleep
  | MonitorStart
  | MonitorStop
  | LaunchApp

record cycle_env =
  polls :: "ctl_op list list"
  clock :: nat
  capture_result :: "error + ScreenshotOutput"
  resize_target :: "int \<times> int"
  resized_base64 :: string
  invoke_result :: "error + InvokeResult"
  activate_result :: "error option"
  execute_result :: "error + jdict"
  fails :: "call \<Rightarrow> error option"

text \<open>
  The worker object together with the two local variables of \<open>run\<close>, \<open>step\<close> and
  \<open>parse_err_streak\<close>. The worker of the source has no router and no cache among
  its attributes.
\<close>

record Worker =
  cfg :: Config
  system :: string
  control :: WorkerControl
  hub :: SupervisorHub
  conversation :: ConversationStore
  has_monitor :: bool
  calls :: "call list"
  step :: int
  parse_err_streak :: int

text \<open>
  Where a cycle stands: \<open>Proceed\<close> inside the loop body, \<open>Next\<close> at the next
  iteration (a \<^verbatim>\<open>continue\<close> or the end of the body), \<open>Finished\<close> after a
  \<^verbatim>\<open>return\<close>, \<open>Waiting\<close> in the pause gate when the environment lists no further
  poll.
\<close>

datatype outcome = Proceed | Next | Finished | Waiting

text \<open>
  A statement either completes with a value and the worker as it is then, or raises
  with the worker as it is at the raise.
\<close>

type_synonym 'a result = "(error \<times> Worker) + ('a \<times> Worker)"

definition and_then :: "'a result \<Rightarrow> ('a \<Rightarrow> Worker \<Rightarrow> 'b result) \<Rightarrow> 'b result" where
  "and_then m f = (case m of Inl ew \<Rightarrow> Inl ew | Inr (a, w) \<Rightarrow> f a w)"

definition state_of :: "'a result \<Rightarrow> Worker" where
  "state_of m = (case m of Inl (e, w) \<Rightarrow> w | Inr (a, w) \<Rightarrow> w)"

definition ctl :: "(WorkerControl \<Rightarrow> WorkerControl) \<Rightarrow> Worker \<Rightarrow> unit result" where
  "ctl f w = Inr ((), w\<lparr>control := f (control w)\<rparr>)"

text \<open>
  A call that cannot raise: \<open>smart_resize\<close> is arithmetic on positive sizes,
  \<open>resize_jpeg_base64\<close> catches every exception and returns its input, and the
  monitor's \<open>stop\<close> guards its platform call.
\<close>

definition called :: "call \<Rightarrow> Worker \<Rightarrow> unit result" where
  "called c w = Inr ((), w\<lparr>calls := calls w @ [c]\<rparr>)"

text \<open>A call to a collaborator that may raise: the call is made, then its outcome applies.\<close>

definition collab :: "call \<Rightarrow> error + 'a \<Rightarrow> Worker \<Rightarrow> 'a result" where
  "collab c r w =
     (let w1 = w\<lparr>calls := calls w @ [c]\<rparr> in
      case r of Inl e \<Rightarrow> Inl (e, w1) | Inr a \<Rightarrow> Inr (a, w1))"

text \<open>
  A call to the recorder, or the sleep that ends the body: it raises what the
  environment says, inside the loop's \<^verbatim>\<open>try\<close> like everything else.
\<close>

definition effect :: "cycle_env \<Rightarrow> call \<Rightarrow> Worker \<Rightarrow> unit result" where
  "effect env c w = collab c (case fails env c of None \<Rightarrow> Inr () | Some e \<Rightarrow> Inl e) w"

definition hub_publish :: "string \<Rightarrow> jdict \<Rightarrow> nat \<Rightarrow> Worker \<Rightarrow> unit result" where
  "hub_publish ty d t w =
     (case publish (hub w) ty (Some d) t of
        Inl e \<Rightarrow> Inl (e, w)
      | Inr h' \<Rightarrow> Inr ((), w\<lparr>hub := h'\<rparr>))"

text \<open>\<^verbatim>\<open>self.hub.set_status(self.control.snapshot()["status"], **extra)\<close>\<close>

definition hub_status :: "jdict \<Rightarrow> nat \<Rightarrow> Worker \<Rightarrow> unit result" where
  "hub_status extra t w =
     (case hub_set_status (hub w) (JStatus (status (control w))) extra t of
        Inl e \<Rightarrow> Inl (e, w)
      | Inr h' \<Rightarrow> Inr ((), w\<lparr>hub := h'\<rparr>))"

definition monitor_stop :: "Worker \<Rightarrow> unit result" where
  "monitor_stop w = (if has_monitor w then called MonitorStop w else Inr ((), w))"

definition conv_add :: "string \<Rightarrow> string \<Rightarrow> nat \<Rightarrow> (string \<times> string) list \<Rightarrow> Worker \<Rightarrow> unit result" where
  "conv_add r t now m w = Inr ((), w\<lparr>conversation := add (conversation w) r t now m\<rparr>)"

definition publish_conv :: "string \<Rightarrow> string \<Rightarrow> nat \<Rightarrow> Worker \<Rightarrow> unit result" where
  "publish_conv r t now w = hub_publish ''conversation'' [(''role'', JStr r), (''text'', JStr t)] now w"

text \<open>Lines 113 to 117 and 123 to 127: the run ends because it was stopped.\<close>

definition finish_stopped :: "cycle_env \<Rightarrow> Worker \<Rightarrow> outcome result" where
  "finish_stopped env w =
     and_then (ctl (\<lambda>c. set_status c USER_STOPPED) w) (\<lambda>_ w.
     and_then (hub_status [] (clock env) w) (\<lambda>_ w.
     and_then (monitor_stop w) (\<lambda>_ w.
     Inr (Finished, w))))"

text \<open>Lines 120 to 127: the pause gate.\<close>

fun pause_wait :: "cycle_env \<Rightarrow> ctl_op list list \<Rightarrow> Worker \<Rightarrow> outcome result" where
  "pause_wait env [] w = (if paused (control w) then Inr (Waiting, w) else Inr (Proceed, w))"
| "pause_wait env (ops # rest) w =
     (if \<not> paused (control w) then Inr (Proceed, w)
      else let w1 = w\<lparr>calls := calls w @ [Sleep], control := apply_ops (control w) ops\<rparr> in
        if stopped (control w1) then finish_stopped env w1
        else pause_wait env rest w1)"

text \<open>
  Lines 129 to 134. \<^verbatim>\<open>if injected:\<close> is false for \<^verbatim>\<open>None\<close> and for the empty
  string, which is popped and dropped.
\<close>

definition take_injected :: "cycle_env \<Rightarrow> Worker \<Rightarrow> unit result" where
  "take_injected env w =
     (case pop_injected (control w) of (popped, c') \<Rightarrow>
        let w = w\<lparr>control := c'\<rparr> in
        (case popped of
           None \<Rightarrow> Inr ((), w)
         | Some t \<Rightarrow>
             if t = [] then Inr ((), w)
             else let txt = ''[Supervisor Guidance]'' @ [CHR 0x0A] @ t in
               and_then (conv_add ''user'' txt (clock env) [(''injected'', ''True'')] w) (\<lambda>_ w.
               and_then (effect env (LogConversation ''user'' txt) w) (\<lambda>_ w.
               publish_conv ''user'' txt (clock env) w))))"

text \<open>Lines 112 to 142: stop check, pause gate, injected guidance, step counter.\<close>

definition begin_cycle :: "cycle_env \<Rightarrow> Worker \<Rightarrow> outcome result" where
  "begin_cycle env w =
     (if stopped (control w) then finish_stopped env w
      else
        and_then (pause_wait env (polls env) w) (\<lambda>gate w.
        if gate \<noteq> Proceed then Inr (gate, w)
        else
          and_then (take_injected env w) (\<lambda>_ w.
          let w = w\<lparr>step := step w + 1\<rparr> in
          if step w > max_loop_count (cfg w) then
            and_then (ctl (\<lambda>c. set_status c ERROR) w) (\<lambda>_ w.
            and_then (hub_status [(''error'', JStr ''max_loop_count'')] (clock env) w) (\<lambda>_ w.
            and_then (monitor_stop w) (\<lambda>_ w.
            Inr (Finished, w))))
          else Inr (Proceed, w))))"

text \<open>
  Lines 147 to 157: the image sent to the model and the message list. The result of
  \<open>smart_resize\<close> and of \<open>resize_jpeg_base64\<close> (which catches every failure
  itself) come from the environment.
\<close>

definition build_messages :: "Worker \<Rightarrow> string \<Rightarrow> message list" where
  "build_messages w send_b64 =
     [TextMsg ''system'' (system w)]
     @ map (\<lambda>(r, t). TextMsg r t) (to_openai_messages (conversation w) False 8)
     @ [VisionMsg ''user'' ''Current screen. Decide next action.''
          (''data:image/jpeg;base64,'' @ send_b64)]"

definition resize_for_model :: "cycle_env \<Rightarrow> ScreenshotOutput \<Rightarrow> Worker \<Rightarrow> string result" where
  "resize_for_model env shot w =
     and_then (called (SmartResize (image_width shot) (image_height shot)) w) (\<lambda>_ w.
     case resize_target env of (tw, th) \<Rightarrow>
       if tw \<noteq> 0 \<and> th \<noteq> 0 \<and> (tw \<noteq> image_width shot \<or> th \<noteq> image_height shot) then
         and_then (called (ResizeJpeg tw th) w) (\<lambda>_ w. Inr (resized_base64 env, w))
       else Inr (base64 shot, w))"

definition first_prediction :: "InvokeResult \<Rightarrow> Worker \<Rightarrow> PredictionParsed result" where
  "first_prediction reply w =
     (case parsed_predictions reply of [] \<Rightarrow> Inl (IndexError, w) | p # _ \<Rightarrow> Inr (p, w))"

text \<open>Lines 144 to 171: from the capture to the reply of the model.\<close>

definition invoke_on_screen ::
  "cycle_env \<Rightarrow> Worker \<Rightarrow> (ScreenshotOutput \<times> InvokeResult) result" where
  "invoke_on_screen env w =
     and_then (collab Capture (capture_result env) w) (\<lambda>shot w.
     and_then (effect env (WriteStep (step w) ''screenshot'') w) (\<lambda>_ w.
     and_then (resize_for_model env shot w) (\<lambda>send_b64 w.
     and_then (collab (InvokeModel (build_messages w send_b64)) (invoke_result env) w) (\<lambda>reply w.
     Inr ((shot, reply), w)))))"

text \<open>Lines 173 to 191: the reply is logged and its first parsed action taken.\<close>

definition log_reply :: "cycle_env \<Rightarrow> InvokeResult \<Rightarrow> Worker \<Rightarrow> PredictionParsed result" where
  "log_reply env reply w =
     and_then (effect env (WriteStep (step w) ''raw_model_text'') w) (\<lambda>_ w.
     and_then (effect env (LogEvent ''model'') w) (\<lambda>_ w.
     and_then (conv_add ''assistant'' (prediction reply) (clock env) [] w) (\<lambda>_ w.
     and_then (effect env (LogConversation ''assistant'' (prediction reply)) w) (\<lambda>_ w.
     and_then (publish_conv ''assistant'' (prediction reply) (clock env) w) (\<lambda>_ w.
     and_then (first_prediction reply w) (\<lambda>pred w.
     and_then (effect env (WriteStep (step w) ''action'') w) (\<lambda>_ w.
     Inr (pred, w))))))))"

text \<open>
  Hanging for supervision: \<open>set_status(HANG)\<close>, \<open>pause()\<close>, the status event with
  the given extra fields, the \<open>hang\<close> event, then \<^verbatim>\<open>continue\<close>.
\<close>

definition hang :: "jdict \<Rightarrow> string \<Rightarrow> cycle_env \<Rightarrow> Worker \<Rightarrow> outcome result" where
  "hang extra reason env w =
     and_then (ctl (\<lambda>c. set_status c HANG) w) (\<lambda>_ w.
     and_then (ctl pause w) (\<lambda>_ w.
     and_then (hub_status extra (clock env) w) (\<lambda>_ w.
     and_then (hub_publish ''hang'' [(''reason'', JStr reason)] (clock env) w) (\<lambda>_ w.
     Inr (Next, w)))))"

definition end_run :: "StatusEnum \<Rightarrow> cycle_env \<Rightarrow> Worker \<Rightarrow> outcome result" where
  "end_run s env w =
     and_then (ctl (\<lambda>c. set_status c s) w) (\<lambda>_ w.
     and_then (hub_status [] (clock env) w) (\<lambda>_ w.
     and_then (monitor_stop w) (\<lambda>_ w.
     Inr (Finished, w))))"

text \<open>Lines 193 to 204: the streak of consecutive parse errors.\<close>

definition note_parse :: "cycle_env \<Rightarrow> PredictionParsed \<Rightarrow> Worker \<Rightarrow> outcome result" where
  "note_parse env pred w =
     (if action_type pred = ''error_env'' then
        let w = w\<lparr>parse_err_streak := parse_err_streak w + 1\<rparr> in
        and_then (hub_publish ''error''
                    [(''where'', JStr ''parse''), (''streak'', JInt (parse_err_streak w)),
                     (''raw'', JStr (raw_action pred))] (clock env) w) (\<lambda>_ w.
        if parse_err_streak w \<ge> 3 then
          hang [(''reason'', JStr ''parse_error_streak'')] ''parse_error_streak'' env w
        else Inr (Proceed, w))
      else Inr (Proceed, w\<lparr>parse_err_streak := 0\<rparr>))"

text \<open>Lines 233 to 242: execute the action and report.\<close>

definition execute_step :: "cycle_env \<Rightarrow> PredictionParsed \<Rightarrow> Worker \<Rightarrow> outcome result" where
  "execute_step env pred w =
     and_then (collab ActivateApp
                 (case activate_result env of None \<Rightarrow> Inr () | Some e \<Rightarrow> Inl e) w) (\<lambda>_ w.
     and_then (collab (ExecuteAction pred) (execute_result env) w) (\<lambda>res w.
     and_then (effect env (WriteStep (step w) ''exec_result'') w) (\<lambda>_ w.
     and_then (effect env (LogEvent ''exec'') w) (\<lambda>_ w.
     and_then (ctl (\<lambda>c. set_status c RUNNING) w) (\<lambda>_ w.
     and_then (hub_status [(''step'', JInt (step w))] (clock env) w) (\<lambda>_ w.
     and_then (effect env Sleep w) (\<lambda>_ w.
     Inr (Next, w))))))))"

text \<open>Lines 193 to 242.\<close>

definition handle_prediction :: "cycle_env \<Rightarrow> PredictionParsed \<Rightarrow> Worker \<Rightarrow> outcome result" where
  "handle_prediction env pred w =
     and_then (note_parse env pred w) (\<lambda>parsed w.
     if parsed \<noteq> Proceed then Inr (parsed, w)
     else if action_type pred = ''finished'' then
       (if hang_on_finished (cfg w) then hang [] ''finished'' env w else end_run END env w)
     else if action_type pred = ''call_user'' then
       (if hang_on_call_user (cfg w) then hang [] ''call_user'' env w
        else end_run CALL_USER env w)
     else execute_step env pred w)"

text \<open>\<^verbatim>\<open>str(e)\<close> for the exceptions of the model.\<close>

fun err_text :: "error \<Rightarrow> string" where
  "err_text ValueError = ''min() arg is an empty sequence''"
| "err_text KeyError = ''key''"
| "err_text IndexError = ''list index out of range''"
| "err_text Full = ''''"
| "err_text (Failure m) = m"

text \<open>Lines 243 to 250: the handler around the loop body.\<close>

definition on_exception :: "cycle_env \<Rightarrow> error \<Rightarrow> Worker \<Rightarrow> outcome result" where
  "on_exception env e w =
     and_then (ctl (\<lambda>c. set_status c ERROR) w) (\<lambda>_ w.
     and_then (hub_status [(''error'', JStr (err_text e)), (''step'', JInt (step w))]
                 (clock env) w) (\<lambda>_ w.
     and_then (hub_publish ''error''
                 [(''where'', JStr ''loop''), (''error'', JStr (err_text e)),
                  (''step'', JInt (step w))] (clock env) w) (\<lambda>_ w.
     and_then (effect env (LogEvent ''error'') w) (\<lambda>_ w.
     and_then (monitor_stop w) (\<lambda>_ w.
     Inr (Finished, w))))))"

text \<open>One pass through the body of \<^verbatim>\<open>while True\<close>, lines 111 to 250.\<close>

definition cycle_body :: "cycle_env \<Rightarrow> Worker \<Rightarrow> outcome result" where
  "cycle_body env w =
     and_then (begin_cycle env w) (\<lambda>gate w.
     if gate \<noteq> Proceed then Inr (gate, w)
     else
       and_then (invoke_on_screen env w) (\<lambda>seen w.
       and_then (log_reply env (snd seen) w) (\<lambda>pred w.
       handle_prediction env pred w)))"

definition cycle :: "cycle_env \<Rightarrow> Worker \<Rightarrow> outcome result" where
  "cycle env w =
     (case cycle_body env w of
        Inl (e, w') \<Rightarrow> on_exception env e w'
      | Inr r \<Rightarrow> Inr r)"

text \<open>
  The loop over the cycles for which the environment is given. \<open>Next\<close> as the final
  outcome says that the loop is still running when the given environments end.
\<close>

fun run_loop :: "cycle_env list \<Rightarrow> Worker \<Rightarrow> outcome result" where
  "run_loop [] w = Inr (Next, w)"
| "run_loop (env # envs) w =
     (case cycle env w of
        Inl ew \<Rightarrow> Inl ew
      | Inr (res, w') \<Rightarrow> if res = Next then run_loop envs w' else Inr (res, w'))"

text \<open>
  Lines 70 to 109: the start of \<open>run\<close>. \<open>launch\<close> is what \<open>launch_app\<close> raises,
  if anything; \<open>pre\<close> gives the clock reading and the recorder's failures before
  the loop. Lines 101 to 106 are outside every \<^verbatim>\<open>try\<close>: what the recorder raises
  there leaves \<open>run\<close>.
\<close>

definition run ::
  "string \<Rightarrow> error option \<Rightarrow> cycle_env \<Rightarrow> cycle_env list \<Rightarrow> Worker \<Rightarrow> outcome result" where
  "run instruction launch pre envs w =
     and_then (ctl (\<lambda>c. set_status c RUNNING) w) (\<lambda>_ w.
     and_then (hub_status [] (clock pre) w) (\<lambda>_ w.
     and_then (if auto_pause_on_user_input (cfg w)
               then effect pre MonitorStart (w\<lparr>has_monitor := True\<rparr>) else Inr ((), w)) (\<lambda>_ w.
     case collab LaunchApp (case launch of None \<Rightarrow> Inr () | Some e \<Rightarrow> Inl e) w of
       Inl (e, w) \<Rightarrow>
         and_then (ctl (\<lambda>c. set_status c ERROR) w) (\<lambda>_ w.
         and_then (hub_status [(''error'', JStr (err_text e))] (clock pre) w) (\<lambda>_ w.
         and_then (hub_publish ''error''
                     [(''where'', JStr ''launch_app''), (''error'', JStr (err_text e))] (clock pre) w) (\<lambda>_ w.
         and_then (monitor_stop w) (\<lambda>_ w.
         Inr (Finished, w)))))
     | Inr (_, w) \<Rightarrow>
         and_then (conv_add ''system'' (system w) (clock pre) [] w) (\<lambda>_ w.
         and_then (effect pre (LogConversation ''system'' (system w)) w) (\<lambda>_ w.
         and_then (conv_add ''user'' instruction (clock pre) [] w) (\<lambda>_ w.
         and_then (effect pre (LogConversation ''user'' instruction) w) (\<lambda>_ w.
         and_then (publish_conv ''user'' instruction (clock pre) w) (\<lambda>_ w.
         run_loop envs (w\<lparr>step := 0, parse_err_streak := 0\<rparr>)))))))))"

text \<open>The events of the parse-error branch, and the handler around the body as a function.\<close>

definition parse_error_event :: "cycle_env \<Rightarrow> PredictionParsed \<Rightarrow> int \<Rightarrow> SupervisorEvent" where
  "parse_error_event env pred streak =
     mk_event ''error''
       (Some [(''where'', JStr ''parse''), (''streak'', JInt streak),
              (''raw'', JStr (raw_action pred))]) (clock env)"

definition hang_event :: "cycle_env \<Rightarrow> string \<Rightarrow> SupervisorEvent" where
  "hang_event env reason = mk_event ''hang'' (Some [(''reason'', JStr reason)]) (clock env)"

text \<open>A new worker with one subscriber on its hub, and the environment before the loop.\<close>

definition worker_init :: Worker where
  "worker_init =
     \<lparr>cfg = \<lparr>max_loop_count = 100, hang_on_finished = True, hang_on_call_user = True,
             auto_pause_on_user_input = True\<rparr>,
      system = ''sys'',
      control = WorkerControl_init,
      hub = snd (subscribe SupervisorHub_init),
      conversation = ConversationStore_init,
      has_monitor = False, calls = [], step = 0, parse_err_streak = 0\<rparr>"

definition pred_error :: PredictionParsed where
  "pred_error =
     \<lparr>action_type = ''error_env'', action_inputs = [], thought = '''', raw_action = ''??''\<rparr>"

definition shot_demo :: ScreenshotOutput where
  "shot_demo = \<lparr>base64 = ''AAAA'', image_width = 100, image_height = 200\<rparr>"

definition reply_demo :: InvokeResult where
  "reply_demo = \<lparr>prediction = ''??'', parsed_predictions = [pred_error], cost_tokens = 10\<rparr>"

definition env_demo :: cycle_env where
  "env_demo =
     \<lparr>polls = [], clock = 5, capture_result = Inr shot_demo, resize_target = (100, 200),
      resized_base64 = ''BBBB'', invoke_result = Inr reply_demo, activate_result = None,
      execute_result = Inr [], fails = (\<lambda>c. None)\<rparr>"

text \<open>
  The environment before the loop, and the worker after a run whose first two cycles
  both ended in a reply that did not parse: it stands before its third cycle.
\<close>

definition env_pre :: cycle_env where
  "env_pre = env_demo\<lparr>clock := 0\<rparr>"

definition worker_demo :: Worker where
  "worker_demo = state_of (run ''open settings'' None env_pre [env_demo, env_demo] worker_init)"

text \<open>
  What a cycle does between the gates and the model, as data: whether the image is
  resized, the image sent, and the calls up to (not including) the model invocation.
\<close>

definition resizes :: "cycle_env \<Rightarrow> ScreenshotOutput \<Rightarrow> bool" where
  "resizes env shot \<longleftrightarrow>
     fst (resize_target env) \<noteq> 0 \<and> snd (resize_target env) \<noteq> 0
     \<and> (fst (resize_target env) \<noteq> image_width shot \<or> snd (resize_target env) \<noteq> image_height shot)"

definition sent_image :: "cycle_env \<Rightarrow> ScreenshotOutput \<Rightarrow> string" where
  "sent_image env shot = (if resizes env shot then resized_base64 env else base64 shot)"

definition screen_calls :: "cycle_env \<Rightarrow> ScreenshotOutput \<Rightarrow> int \<Rightarrow> call list" where
  "screen_calls env shot n =
     [Capture, WriteStep n ''screenshot'', SmartResize (image_width shot) (image_height shot)]
     @ (if resizes env shot
        then [ResizeJpeg (fst (resize_target env)) (snd (resize_target env))] else [])"

text \<open>The recorder's calls of a cycle up to the recording of the action.\<close>

definition reply_calls :: "InvokeResult \<Rightarrow> int \<Rightarrow> call list" where
  "reply_calls reply n =
     [WriteStep n ''raw_model_text'', LogEvent ''model'',
      LogConversation ''assistant'' (prediction reply), WriteStep n ''action'']"

text \<open>The calls of the worker only ever grow: a step appends to them.\<close>

definition grows :: "Worker \<Rightarrow> 'a result \<Rightarrow> bool" where
  "grows w m \<longleftrightarrow> prefix (calls w) (calls (state_of m))"

text \<open>A cycle in which the model answers with a click.\<close>

definition reply_click :: InvokeResult where
  "reply_click =
     \<lparr>prediction = ''click(start_box=(500,500))'', parsed_predictions = [pred_click],
      cost_tokens = 10\<rparr>"

definition env_click :: cycle_env where
  "env_click =
     \<lparr>polls = [], clock = 5, capture_result = Inr shot_demo, resize_target = (100, 200),
      resized_base64 = ''BBBB'', invoke_result = Inr reply_click, activate_result = None,
      execute_result = Inr [], fails = (\<lambda>c. None)\<rparr>"

section \<open>Facts about the distance\<close>

lemma count_str_append: "count_str (s @ t) c = count_str s c + count_str t c"
  by (simp add: count_str_def)

lemma count_str_nonneg: "0 \<le> count_str s c"
  by (simp add: count_str_def)

lemma count_str_le_length: "count_str s c \<le> int (length s)"
  by (simp add: count_str_def)

lemma length_bin_digits: "0 < k \<Longrightarrow> n < 2 ^ k \<Longrightarrow> length (bin_digits n) \<le> k"
proof (induction n arbitrary: k rule: bin_digits.induct)
  case (1 n)
  show ?case
  proof (cases "n < 2")
    case True
    with "1.prems" show ?thesis
      by (subst bin_digits.simps) simp
  next
    case False
    from "1.prems" obtain j where kj: "k = Suc j"
      by (cases k) auto
    have "j \<noteq> 0"
    proof
      assume "j = 0"
      with "1.prems" kj have "n < 2" by simp
      with False show False by simp
    qed
    with kj have j: "k = Suc j" "0 < j"
      by simp_all
    from "1.prems" j have "n div 2 < 2 ^ j"
      by simp
    with "1.IH" [OF False] j have "length (bin_digits (n div 2)) \<le> j"
      by blast
    with False j show ?thesis
      by (subst bin_digits.simps) simp
  qed
qed

lemma ones_bin_digits_zero_iff: "count_str (bin_digits n) CHR ''1'' = 0 \<longleftrightarrow> n = 0"
proof (induction n rule: bin_digits.induct)
  case (1 n)
  show ?case
  proof (cases "n < 2")
    case True
    then show ?thesis
      by (subst bin_digits.simps) (simp add: count_str_def)
  next
    case False
    have nn: "0 \<le> count_str (bin_digits (n div 2)) CHR ''1''"
      by (rule count_str_nonneg)
    from False have "n div 2 \<noteq> 0" by simp
    with "1.IH" [OF False] nn have "0 < count_str (bin_digits (n div 2)) CHR ''1''"
      by linarith
    moreover have "0 \<le> count_str [if n mod 2 = 0 then CHR ''0'' else CHR ''1''] CHR ''1''"
      by (rule count_str_nonneg)
    ultimately show ?thesis using False
      by (subst bin_digits.simps) (simp add: count_str_append)
  qed
qed

lemma count_prefix_pos: "count_str ''0b'' CHR ''1'' = 0"
  by (simp add: count_str_def)

lemma count_prefix_neg: "count_str ''-0b'' CHR ''1'' = 0"
  by (simp add: count_str_def)

lemma hamming_distance_ones:
  "hamming_distance a b = count_str (bin_digits (nat \<bar>a XOR b\<bar>)) CHR ''1''"
  by (simp add: hamming_distance_def bin_def count_str_append count_prefix_pos count_prefix_neg
      del: append.simps)

lemma hamming_distance_nonneg: "0 \<le> hamming_distance a b"
  by (simp add: hamming_distance_ones count_str_nonneg)

lemma xor_int_zero_iff: "a XOR b = 0 \<longleftrightarrow> a = b" for a b :: int
proof
  assume "a XOR b = 0"
  then have "(a XOR b) XOR b = 0 XOR b" by simp
  then show "a = b" by (simp add: xor.assoc)
next
  assume "a = b"
  then show "a XOR b = 0" by simp
qed

lemma hamming_distance_zero_iff: "hamming_distance a b = 0 \<longleftrightarrow> a = b"
  by (simp add: hamming_distance_ones ones_bin_digits_zero_iff xor_int_zero_iff)

lemma hamming_distance_commute: "hamming_distance a b = hamming_distance b a"
  by (simp add: hamming_distance_def xor.commute)

lemma hamming_distance_bound:
  assumes "0 \<le> a" "a < 2 ^ 64" "0 \<le> b" "b < 2 ^ 64"
  shows "hamming_distance a b \<le> 64"
proof -
  from assms have nn: "0 \<le> a XOR b" by simp
  from assms XOR_upper [of a 64 b] have "a XOR b < 2 ^ 64" by simp
  with nn have "nat \<bar>a XOR b\<bar> < 2 ^ 64"
    by (simp add: nat_less_iff)
  then have "length (bin_digits (nat \<bar>a XOR b\<bar>)) \<le> 64"
    by (intro length_bin_digits) simp_all
  moreover have "hamming_distance a b \<le> int (length (bin_digits (nat \<bar>a XOR b\<bar>)))"
    by (simp add: hamming_distance_ones count_str_le_length)
  ultimately show ?thesis by linarith
qed

text \<open>
  C9. For all fingerprints \<open>a\<close> and \<open>b\<close> with \<open>0 \<le> a, b < 2^64\<close>, the distance is
  symmetric, the distance of a fingerprint to itself is zero, and the distance is at
  most 64.
\<close>

theorem hamming_distance_props:
  assumes "0 \<le> a" "a < 2 ^ 64" "0 \<le> b" "b < 2 ^ 64"
  shows "hamming_distance a b = hamming_distance b a
       \<and> hamming_distance a a = 0
       \<and> hamming_distance a b \<le> 64"
  using assms hamming_distance_commute [of a b] hamming_distance_zero_iff [of a a]
    hamming_distance_bound [of a b]
  by simp

theorem hamming_distance_props_witness:
  "(0::int) \<le> 1000 \<and> (1000::int) < 2 ^ 64 \<and> (0::int) \<le> 1001 \<and> (1001::int) < 2 ^ 64
   \<and> hamming_distance 1000 1001 = hamming_distance 1001 1000
   \<and> hamming_distance 1000 1000 = 0
   \<and> hamming_distance 1000 1001 \<le> 64"
  using hamming_distance_props [of 1000 1001] by simp

section \<open>Cache lookup\<close>

lemma lookup_loop_step:
  "lookup_loop c fp (r # rs) best bd =
     (if eligible c r \<and> dist_to c fp r < bd then lookup_loop c fp rs (Some r) (dist_to c fp r)
      else lookup_loop c fp rs best bd)"
  by (auto simp: eligible_def dist_to_def Let_def)

lemma lookup_loop_miss:
  "\<forall>r\<in>set rs. \<not> (eligible c r \<and> dist_to c fp r < bd) \<Longrightarrow> lookup_loop c fp rs best bd = best"
proof (induction rs)
  case Nil
  show ?case by simp
next
  case (Cons r rs)
  then show ?case by (simp only: lookup_loop_step) auto
qed

lemma lookup_loop_hit:
  "\<exists>r\<in>set rs. eligible c r \<and> dist_to c fp r < bd \<Longrightarrow>
   \<exists>r\<in>set rs. lookup_loop c fp rs best bd = Some r \<and> eligible c r \<and> dist_to c fp r < bd
     \<and> (\<forall>r'\<in>set rs. eligible c r' \<longrightarrow> dist_to c fp r \<le> dist_to c fp r')"
proof (induction rs arbitrary: best bd)
  case Nil
  then show ?case by simp
next
  case (Cons r rs)
  show ?case
  proof (cases "eligible c r \<and> dist_to c fp r < bd")
    case better: True
    show ?thesis
    proof (cases "\<exists>r'\<in>set rs. eligible c r' \<and> dist_to c fp r' < dist_to c fp r")
      case True
      from Cons.IH [OF True, of "Some r"] obtain q where q: "q \<in> set rs"
        "lookup_loop c fp rs (Some r) (dist_to c fp r) = Some q" "eligible c q"
        "dist_to c fp q < dist_to c fp r"
        "\<forall>r'\<in>set rs. eligible c r' \<longrightarrow> dist_to c fp q \<le> dist_to c fp r'"
        by blast
      with better show ?thesis
        by (simp only: lookup_loop_step) force
    next
      case False
      then have "lookup_loop c fp rs (Some r) (dist_to c fp r) = Some r"
        by (intro lookup_loop_miss) blast
      with better False show ?thesis
        by (simp only: lookup_loop_step) force
    qed
  next
    case worse: False
    with Cons.prems have "\<exists>r'\<in>set rs. eligible c r' \<and> dist_to c fp r' < bd"
      by auto
    from Cons.IH [OF this, of best] obtain q where q: "q \<in> set rs"
        "lookup_loop c fp rs best bd = Some q" "eligible c q"
        "dist_to c fp q < bd"
        "\<forall>r'\<in>set rs. eligible c r' \<longrightarrow> dist_to c fp q \<le> dist_to c fp r'"
      by blast
    with worse show ?thesis
      by (simp only: lookup_loop_step) force
  qed
qed

lemma lookup_miss:
  assumes "\<forall>r\<in>set (map snd (entries c)).
             \<not> (eligible c r \<and> dist_to c fp r \<le> hash_threshold c)"
  shows "lookup c fp = None"
  unfolding lookup_def
  by (rule lookup_loop_miss) (use assms in auto)

lemma lookup_hit:
  assumes "\<exists>r\<in>set (map snd (entries c)). eligible c r \<and> dist_to c fp r \<le> hash_threshold c"
  shows "\<exists>r\<in>set (map snd (entries c)). lookup c fp = Some r \<and> eligible c r
           \<and> dist_to c fp r \<le> hash_threshold c
           \<and> (\<forall>r'\<in>set (map snd (entries c)). eligible c r' \<longrightarrow> dist_to c fp r \<le> dist_to c fp r')"
proof -
  from assms have "\<exists>r\<in>set (map snd (entries c)).
      eligible c r \<and> dist_to c fp r < hash_threshold c + 1"
    by auto
  from lookup_loop_hit [OF this, of None] show ?thesis
    unfolding lookup_def by auto
qed

lemma record_hit_fields [simp]:
  "entries (record_hit c r s) = entries c"
  "max_reuse (record_hit c r s) = max_reuse c"
  "hash_threshold (record_hit c r s) = hash_threshold c"
  "max_entries (record_hit c r s) = max_entries c"
  "length (heap (record_hit c r s)) = length (heap c)"
  by (simp_all add: record_hit_def)

lemma record_hit_same:
  "r < length (heap c) \<Longrightarrow>
   heap (record_hit c r s) ! r = (heap c ! r)\<lparr>hit_count := hit_count (heap c ! r) + 1, last_step := s\<rparr>"
  by (simp add: record_hit_def)

lemma record_hit_other:
  "r' \<noteq> r \<Longrightarrow> heap (record_hit c r s) ! r' = heap c ! r'"
  by (simp add: record_hit_def)

text \<open>
  C2. \<open>lookup\<close> returns none when no eligible entry (not failed, hit count below
  \<open>max_reuse\<close>) lies within \<open>hash_threshold\<close> of the queried fingerprint, and
  otherwise returns an eligible entry of the cache within the threshold whose distance
  is minimal among all eligible entries. With \<open>max_reuse = 2\<close>, after two
  \<open>record_hit\<close> calls on an entry (whose hit count, as for every entry the cache
  creates, is not negative), looking up that entry's fingerprint returns none when no
  other eligible entry is within the threshold.
\<close>

theorem lookup_spec:
  "(if \<exists>r\<in>set (map snd (entries c)). eligible c r \<and> dist_to c fp r \<le> hash_threshold c
    then \<exists>r\<in>set (map snd (entries c)). lookup c fp = Some r \<and> eligible c r
           \<and> dist_to c fp r \<le> hash_threshold c
           \<and> (\<forall>r'\<in>set (map snd (entries c)). eligible c r' \<longrightarrow> dist_to c fp r \<le> dist_to c fp r')
    else lookup c fp = None)
   \<and> (max_reuse c = 2 \<and> e < length (heap c) \<and> 0 \<le> hit_count (heap c ! e)
        \<and> (\<forall>r'\<in>set (map snd (entries c)). r' \<noteq> e \<longrightarrow>
              \<not> (eligible c r' \<and> dist_to c (fingerprint (heap c ! e)) r' \<le> hash_threshold c))
      \<longrightarrow> lookup (record_hit (record_hit c e s1) e s2) (fingerprint (heap c ! e)) = None)"
proof (intro conjI impI)
  show "if \<exists>r\<in>set (map snd (entries c)). eligible c r \<and> dist_to c fp r \<le> hash_threshold c
    then \<exists>r\<in>set (map snd (entries c)). lookup c fp = Some r \<and> eligible c r
           \<and> dist_to c fp r \<le> hash_threshold c
           \<and> (\<forall>r'\<in>set (map snd (entries c)). eligible c r' \<longrightarrow> dist_to c fp r \<le> dist_to c fp r')
    else lookup c fp = None"
  proof (cases "\<exists>r\<in>set (map snd (entries c)). eligible c r \<and> dist_to c fp r \<le> hash_threshold c")
    case True
    with lookup_hit [OF True] show ?thesis by simp
  next
    case False
    then have "lookup c fp = None" by (intro lookup_miss) blast
    with False show ?thesis by simp
  qed
next
  assume h: "max_reuse c = 2 \<and> e < length (heap c) \<and> 0 \<le> hit_count (heap c ! e)
        \<and> (\<forall>r'\<in>set (map snd (entries c)). r' \<noteq> e \<longrightarrow>
              \<not> (eligible c r' \<and> dist_to c (fingerprint (heap c ! e)) r' \<le> hash_threshold c))"
  let ?c = "record_hit (record_hit c e s1) e s2"
  have used: "\<not> eligible ?c e"
    using h by (simp add: eligible_def record_hit_same)
  have others: "eligible ?c r' = eligible c r' \<and> dist_to ?c fp' r' = dist_to c fp' r'"
    if "r' \<noteq> e" for r' fp'
    using that by (simp add: eligible_def dist_to_def record_hit_other)
  show "lookup ?c (fingerprint (heap c ! e)) = None"
  proof (rule lookup_miss, rule ballI)
    fix r' assume "r' \<in> set (map snd (entries ?c))"
    then have mem: "r' \<in> set (map snd (entries c))" by simp
    show "\<not> (eligible ?c r' \<and> dist_to ?c (fingerprint (heap c ! e)) r' \<le> hash_threshold ?c)"
    proof (cases "r' = e")
      case True
      with used show ?thesis by simp
    next
      case False
      from h mem False
      have "\<not> (eligible c r' \<and> dist_to c (fingerprint (heap c ! e)) r' \<le> hash_threshold c)"
        by blast
      with others [OF False] show ?thesis by simp
    qed
  qed
qed

lemma hamming_1001_1000: "hamming_distance 1001 1000 = 1"
  by (simp add: hamming_distance_ones bin_digits.simps count_str_def)

theorem lookup_spec_witness:
  "eligible cache_one 0 \<and> dist_to cache_one 1001 0 \<le> hash_threshold cache_one
   \<and> lookup cache_one 1001 = Some 0
   \<and> max_reuse cache_one = 2 \<and> 0 < length (heap cache_one)
   \<and> 0 \<le> hit_count (heap cache_one ! 0)
   \<and> lookup (record_hit (record_hit cache_one 0 2) 0 3) 1000 = None"
  using lookup_spec [of cache_one 1001 0 2 3]
  by (simp add: cache_one_def eligible_def dist_to_def new_entry_def hamming_1001_1000)

section \<open>Cache store\<close>

lemma min_loop_mem: "min_loop f xs b \<in> set (b # xs)"
  by (induction xs arbitrary: b) (auto split: if_splits)

lemma min_loop_le_start: "f (min_loop f xs b) \<le> f b"
proof (induction xs arbitrary: b)
  case Nil
  show ?case by simp
next
  case (Cons x xs)
  show ?case
  proof (cases "f x < f b")
    case True
    with Cons.IH [of x] show ?thesis by simp
  next
    case False
    with Cons.IH [of b] show ?thesis by simp
  qed
qed

lemma min_loop_le: "x \<in> set xs \<Longrightarrow> f (min_loop f xs b) \<le> f x"
proof (induction xs arbitrary: b)
  case Nil
  then show ?case by simp
next
  case (Cons y ys)
  show ?case
  proof (cases "x = y")
    case True
    show ?thesis
    proof (cases "f y < f b")
      case True
      with \<open>x = y\<close> min_loop_le_start [of f ys y] show ?thesis by simp
    next
      case False
      with \<open>x = y\<close> min_loop_le_start [of f ys b] show ?thesis by simp
    qed
  next
    case False
    with Cons.prems have "x \<in> set ys" by simp
    from Cons.IH [OF this] show ?thesis by simp
  qed
qed

lemma min_by_empty: "min_by f [] = Inl ValueError"
  by (simp add: min_by_def)

lemma min_by_nonempty:
  assumes "xs \<noteq> []"
  shows "\<exists>m. min_by f xs = Inr m \<and> m \<in> set xs \<and> (\<forall>x\<in>set xs. f m \<le> f x)"
proof -
  from assms obtain b rest where xs: "xs = b # rest" by (cases xs) auto
  have "min_loop f rest b \<in> set (b # rest)" by (rule min_loop_mem)
  moreover have "\<forall>x\<in>set (b # rest). f (min_loop f rest b) \<le> f x"
    using min_loop_le [of _ rest f b] min_loop_le_start [of f rest b] by auto
  ultimately show ?thesis by (simp add: xs min_by_def)
qed

lemma length_delete_distinct:
  "distinct (map fst al) \<Longrightarrow> k \<in> set (map fst al) \<Longrightarrow> Suc (length (AList.delete k al)) = length al"
proof (induction al)
  case Nil
  then show ?case by simp
next
  case (Cons p ps)
  show ?case
  proof (cases "fst p = k")
    case True
    with Cons.prems have "k \<notin> fst ` set ps" by auto
    with True show ?thesis by simp
  next
    case False
    with Cons show ?thesis by auto
  qed
qed

lemma length_update:
  "length (AList.update k v al) = (if k \<in> set (map fst al) then length al else Suc (length al))"
  by (induction al) auto

lemma set_update_subset: "set (AList.update k v al) \<subseteq> insert (k, v) (set al)"
  by (induction al) auto

lemma setitem_new_fields [simp]:
  "entries (setitem_new c k e) = AList.update k (length (heap c)) (entries c)"
  "heap (setitem_new c k e) = heap c @ [e]"
  "max_entries (setitem_new c k e) = max_entries c"
  "max_reuse (setitem_new c k e) = max_reuse c"
  "hash_threshold (setitem_new c k e) = hash_threshold c"
  by (simp_all add: setitem_new_def)

lemma store_existing:
  "fp \<in> set (map fst (entries c)) \<Longrightarrow>
   store c fp acts post stp = Inr (setitem_new c fp (new_entry fp acts post stp))"
  by (simp add: store_def)

lemma store_room:
  "int (length (entries c)) < max_entries c \<Longrightarrow>
   store c fp acts post stp = Inr (setitem_new c fp (new_entry fp acts post stp))"
  by (simp add: store_def)

lemma store_full_new:
  assumes "max_entries c \<le> int (length (entries c))" "fp \<notin> set (map fst (entries c))"
    "entries c \<noteq> []"
  shows "\<exists>old\<in>set (map fst (entries c)).
           (\<forall>k\<in>set (map fst (entries c)). last_step (getitem c old) \<le> last_step (getitem c k))
         \<and> store c fp acts post stp =
             Inr (setitem_new (c\<lparr>entries := AList.delete old (entries c)\<rparr>) fp
                    (new_entry fp acts post stp))"
proof -
  from assms(3) have "map fst (entries c) \<noteq> []" by simp
  from min_by_nonempty [OF this, of "\<lambda>k. last_step (getitem c k)"]
  obtain m where m: "min_by (\<lambda>k. last_step (getitem c k)) (map fst (entries c)) = Inr m"
    "m \<in> set (map fst (entries c))"
    "\<forall>x\<in>set (map fst (entries c)). last_step (getitem c m) \<le> last_step (getitem c x)"
    by blast
  from assms(1,2) m(1) have "store c fp acts post stp =
      Inr (setitem_new (c\<lparr>entries := AList.delete m (entries c)\<rparr>) fp (new_entry fp acts post stp))"
    by (simp add: store_def)
  with m(2,3) show ?thesis by blast
qed

lemma store_raises:
  "entries c = [] \<Longrightarrow> max_entries c \<le> 0 \<Longrightarrow> store c fp acts post stp = Inl ValueError"
  by (simp add: store_def min_by_def)

text \<open>
  C4, the claim as stated fails: a cache built with \<open>max_entries = 0\<close> is at capacity
  while empty, every key is new, and \<open>store\<close> finds no entry to evict: the
  \<^verbatim>\<open>min\<close> over the empty dictionary raises \<^verbatim>\<open>ValueError\<close> and nothing is stored.
\<close>

theorem store_zero_capacity_raises:
  "store (L0Cache_init 5 3 0) 100 [pred_click] (Some 200) 1 = Inl ValueError"
  by (simp add: store_def L0Cache_init_def min_by_def)

text \<open>
  C4, amended. For a cache with \<open>max_entries \<ge> 1\<close> that holds at most
  \<open>max_entries\<close> entries under unique keys, \<open>store\<close> returns normally, binds the
  key to a fresh entry (hit count 0, succeeded, the given actions, post fingerprint
  and stp) and leaves the size at most \<open>max_entries\<close>. When the key is already
  present or the cache has room, every other key keeps its entry. When the cache is
  full and the key is new, exactly one key is removed, one whose entry has the smallest
  last-used stp, and every other key keeps its entry. Example: with
  \<open>max_entries = 3\<close>, storing 100, 200, 300 at steps 1, 2, 3 and then 400 at stp 4
  leaves the keys 200, 300, 400.
\<close>

theorem store_spec:
  assumes "distinct (map fst (entries c))"
    and "int (length (entries c)) \<le> max_entries c"
    and "1 \<le> max_entries c"
  shows "(\<exists>c'. store c fp acts post stp = Inr c'
       \<and> map_of (entries c') fp = Some (length (heap c))
       \<and> heap c' = heap c @ [new_entry fp acts post stp]
       \<and> max_entries c' = max_entries c
       \<and> int (length (entries c')) \<le> max_entries c
       \<and> distinct (map fst (entries c'))
       \<and> (if fp \<in> set (map fst (entries c)) \<or> int (length (entries c)) < max_entries c
          then \<forall>k. k \<noteq> fp \<longrightarrow> map_of (entries c') k = map_of (entries c) k
          else \<exists>old\<in>set (map fst (entries c)).
                 (\<forall>k\<in>set (map fst (entries c)).
                     last_step (getitem c old) \<le> last_step (getitem c k))
               \<and> map_of (entries c') old = None
               \<and> (\<forall>k. k \<noteq> fp \<and> k \<noteq> old \<longrightarrow> map_of (entries c') k = map_of (entries c) k)))
     \<and> (case store_seq (L0Cache_init 0 3 3)
                [(100, [pred_click], Some 200, 1), (200, [pred_click], Some 300, 2),
                 (300, [pred_click], Some 400, 3), (400, [pred_click], Some 500, 4)] of
          Inl e \<Rightarrow> False
        | Inr c' \<Rightarrow> map fst (entries c') = [200, 300, 400])"
proof (rule conjI)
  let ?new = "new_entry fp acts post stp"
  show "\<exists>c'. store c fp acts post stp = Inr c'
       \<and> map_of (entries c') fp = Some (length (heap c))
       \<and> heap c' = heap c @ [?new]
       \<and> max_entries c' = max_entries c
       \<and> int (length (entries c')) \<le> max_entries c
       \<and> distinct (map fst (entries c'))
       \<and> (if fp \<in> set (map fst (entries c)) \<or> int (length (entries c)) < max_entries c
          then \<forall>k. k \<noteq> fp \<longrightarrow> map_of (entries c') k = map_of (entries c) k
          else \<exists>old\<in>set (map fst (entries c)).
                 (\<forall>k\<in>set (map fst (entries c)).
                     last_step (getitem c old) \<le> last_step (getitem c k))
               \<and> map_of (entries c') old = None
               \<and> (\<forall>k. k \<noteq> fp \<and> k \<noteq> old \<longrightarrow> map_of (entries c') k = map_of (entries c) k))"
  proof (cases "fp \<in> set (map fst (entries c)) \<or> int (length (entries c)) < max_entries c")
    case True
    then have st: "store c fp acts post stp = Inr (setitem_new c fp ?new)"
      using store_existing store_room by blast
    have len: "int (length (entries (setitem_new c fp ?new))) \<le> max_entries c"
      using True assms(2) by (auto simp: length_update)
    have dist: "distinct (map fst (entries (setitem_new c fp ?new)))"
      using assms(1) by (simp add: AList.distinct_update)
    have keep: "\<forall>k. k \<noteq> fp \<longrightarrow>
        map_of (entries (setitem_new c fp ?new)) k = map_of (entries c) k"
      by (simp add: AList.update_conv')
    have bound: "map_of (entries (setitem_new c fp ?new)) fp = Some (length (heap c))"
      by (simp add: AList.update_conv')
    from True st len dist keep bound show ?thesis by simp
  next
    case False
    then have full: "max_entries c \<le> int (length (entries c))"
      and new: "fp \<notin> set (map fst (entries c))" by auto
    from full assms(3) have ne: "entries c \<noteq> []" by auto
    from store_full_new [OF full new ne, of acts post stp]
    obtain old where old: "old \<in> set (map fst (entries c))"
      "\<forall>k\<in>set (map fst (entries c)). last_step (getitem c old) \<le> last_step (getitem c k)"
      "store c fp acts post stp =
         Inr (setitem_new (c\<lparr>entries := AList.delete old (entries c)\<rparr>) fp ?new)"
      by blast
    let ?d = "c\<lparr>entries := AList.delete old (entries c)\<rparr>"
    let ?c' = "setitem_new ?d fp ?new"
    from old(1) new have neq: "old \<noteq> fp" by auto
    have fp_d: "fp \<notin> set (map fst (entries ?d))"
      using new by (auto simp: AList.delete_keys)
    have "Suc (length (entries ?d)) = length (entries c)"
      using length_delete_distinct [OF assms(1) old(1)] by simp
    with fp_d have "length (entries ?c') = length (entries c)"
      by (simp add: length_update del: set_map)
    with assms(2) have len: "int (length (entries ?c')) \<le> max_entries c" by simp
    have dist: "distinct (map fst (entries ?c'))"
      using assms(1) by (simp add: AList.distinct_update AList.distinct_delete)
    have gone: "map_of (entries ?c') old = None"
      using neq by (simp add: AList.update_conv' AList.delete_conv')
    have keep: "\<forall>k. k \<noteq> fp \<and> k \<noteq> old \<longrightarrow> map_of (entries ?c') k = map_of (entries c) k"
      by (simp add: AList.update_conv' AList.delete_conv')
    have bound: "map_of (entries ?c') fp = Some (length (heap c))"
      by (simp add: AList.update_conv')
    have hp: "heap ?c' = heap c @ [?new]" and me: "max_entries ?c' = max_entries c"
      by simp_all
    from False old(1,2) gone keep have
      "if fp \<in> set (map fst (entries c)) \<or> int (length (entries c)) < max_entries c
       then \<forall>k. k \<noteq> fp \<longrightarrow> map_of (entries ?c') k = map_of (entries c) k
       else \<exists>old\<in>set (map fst (entries c)).
              (\<forall>k\<in>set (map fst (entries c)).
                  last_step (getitem c old) \<le> last_step (getitem c k))
            \<and> map_of (entries ?c') old = None
            \<and> (\<forall>k. k \<noteq> fp \<and> k \<noteq> old \<longrightarrow> map_of (entries ?c') k = map_of (entries c) k)"
      by (simp only: if_False) blast
    with old(3) bound hp me len dist show ?thesis by blast
  qed
next
  show "case store_seq (L0Cache_init 0 3 3)
                [(100, [pred_click], Some 200, 1), (200, [pred_click], Some 300, 2),
                 (300, [pred_click], Some 400, 3), (400, [pred_click], Some 500, 4)] of
          Inl e \<Rightarrow> False
        | Inr c' \<Rightarrow> map fst (entries c') = [200, 300, 400]"
    by (simp add: store_def L0Cache_init_def setitem_new_def min_by_def getitem_def new_entry_def)
qed

lemma cache_three_reached:
  "store_seq (L0Cache_init 0 3 3)
     [(100, [pred_click], Some 200, 1), (200, [pred_click], Some 300, 2),
      (300, [pred_click], Some 400, 3)] = Inr cache_three"
  by (simp add: store_def L0Cache_init_def setitem_new_def cache_three_def)

theorem store_spec_witness:
  "distinct (map fst (entries cache_three))
   \<and> int (length (entries cache_three)) \<le> max_entries cache_three
   \<and> 1 \<le> max_entries cache_three
   \<and> (\<exists>c'. store cache_three 400 [pred_click] (Some 500) 4 = Inr c'
         \<and> map_of (entries c') 400 = Some 3
         \<and> heap c' = heap cache_three @ [new_entry 400 [pred_click] (Some 500) 4]
         \<and> int (length (entries c')) \<le> 3)"
proof -
  have h1: "distinct (map fst (entries cache_three))"
    and h2: "int (length (entries cache_three)) \<le> max_entries cache_three"
    and h3: "1 \<le> max_entries cache_three"
    by (simp_all add: cache_three_def)
  from store_spec [OF h1 h2 h3, of 400 "[pred_click]" "Some 500" 4]
  obtain c' where "store cache_three 400 [pred_click] (Some 500) 4 = Inr c'"
    "map_of (entries c') 400 = Some (length (heap cache_three))"
    "heap c' = heap cache_three @ [new_entry 400 [pred_click] (Some 500) 4]"
    "int (length (entries c')) \<le> max_entries cache_three"
    by blast
  moreover have "length (heap cache_three) = 3" "max_entries cache_three = 3"
    by (simp_all add: cache_three_def)
  ultimately show ?thesis using h1 h2 h3 by auto
qed

section \<open>The dictionary invariant\<close>

lemma cache_wf_init: "cache_wf (L0Cache_init ht mr me)"
  by (simp add: cache_wf_def L0Cache_init_def)

lemma cache_wf_iff:
  "cache_wf c \<longleftrightarrow> distinct (map fst (entries c))
     \<and> (\<forall>k r. (k, r) \<in> set (entries c) \<longrightarrow> r < length (heap c) \<and> fingerprint (heap c ! r) = k)"
  by (auto simp: cache_wf_def list_all_iff)

lemma cache_wf_record_hit: "cache_wf c \<Longrightarrow> cache_wf (record_hit c r s)"
proof -
  assume wf: "cache_wf c"
  have "fingerprint (heap (record_hit c r s) ! r') = fingerprint (heap c ! r')"
    if "r' < length (heap c)" for r'
    using that by (cases "r' = r") (simp_all add: record_hit_def)
  with wf show ?thesis
    unfolding cache_wf_iff by simp
qed

lemma cache_wf_mark_failed: "cache_wf c \<Longrightarrow> cache_wf (mark_failed c r)"
proof -
  assume wf: "cache_wf c"
  have "fingerprint (heap (mark_failed c r) ! r') = fingerprint (heap c ! r')"
    if "r' < length (heap c)" for r'
    using that by (cases "r' = r") (simp_all add: mark_failed_def)
  moreover have "entries (mark_failed c r) = entries c"
    "length (heap (mark_failed c r)) = length (heap c)"
    by (simp_all add: mark_failed_def)
  ultimately show ?thesis using wf
    unfolding cache_wf_iff by simp
qed

lemma set_delete_subset: "set (AList.delete k al) \<subseteq> set al"
  by (auto simp: AList.delete_eq)

lemma cache_wf_delete: "cache_wf c \<Longrightarrow> cache_wf (c\<lparr>entries := AList.delete k (entries c)\<rparr>)"
proof -
  assume wf: "cache_wf c"
  then have "distinct (map fst (AList.delete k (entries c)))"
    by (simp add: cache_wf_iff AList.distinct_delete)
  with wf set_delete_subset [of k "entries c"] show ?thesis
    unfolding cache_wf_iff by auto
qed

lemma cache_wf_evict: "cache_wf c \<Longrightarrow> cache_wf (evict c r)"
  unfolding evict_def by (rule cache_wf_delete)

lemma cache_wf_setitem_new:
  assumes "cache_wf c" "fingerprint e = k"
  shows "cache_wf (setitem_new c k e)"
proof -
  have "r < length (heap c @ [e]) \<and> fingerprint ((heap c @ [e]) ! r) = k'"
    if "(k', r) \<in> set (AList.update k (length (heap c)) (entries c))" for k' r
  proof -
    from that set_update_subset [of k "length (heap c)" "entries c"]
    consider "(k', r) = (k, length (heap c))" | "(k', r) \<in> set (entries c)" by blast
    then show ?thesis
    proof cases
      case 1
      with assms(2) show ?thesis by simp
    next
      case 2
      with assms(1) have "r < length (heap c)" "fingerprint (heap c ! r) = k'"
        by (auto simp: cache_wf_iff)
      then show ?thesis by (simp add: nth_append)
    qed
  qed
  with assms(1) show ?thesis
    unfolding cache_wf_iff by (auto simp: AList.distinct_update)
qed

lemma cache_wf_store:
  assumes "cache_wf c" "store c fp acts post stp = Inr c'"
  shows "cache_wf c'"
proof -
  have fpn: "fingerprint (new_entry fp acts post stp) = fp"
    by (simp add: new_entry_def)
  from assms(2) consider "c' = setitem_new c fp (new_entry fp acts post stp)"
    | old where "c' = setitem_new (c\<lparr>entries := AList.delete old (entries c)\<rparr>) fp
                        (new_entry fp acts post stp)"
    by (auto simp: store_def split: if_splits sum.splits)
  then show ?thesis
  proof cases
    case 1
    with assms(1) fpn show ?thesis by (simp add: cache_wf_setitem_new)
  next
    case 2
    with cache_wf_delete [OF assms(1), of old] fpn show ?thesis
      by (simp add: cache_wf_setitem_new)
  qed
qed

lemma cache_wf_value_unique:
  assumes "cache_wf c" "r \<in> set (map snd (entries c))"
  shows "map_of (entries c) (fingerprint (heap c ! r)) = Some r"
proof -
  from assms(2) obtain k where kr: "(k, r) \<in> set (entries c)" by auto
  with assms(1) have "fingerprint (heap c ! r) = k" by (auto simp: cache_wf_iff)
  moreover from assms(1) kr have "map_of (entries c) k = Some r"
    by (simp add: cache_wf_iff)
  ultimately show ?thesis by simp
qed

text \<open>
  Hit counts start at 0 and only go up, so no operation of the cache makes one
  negative.
\<close>

lemma hits_nonneg_init: "hits_nonneg (L0Cache_init ht mr me)"
  by (simp add: hits_nonneg_def L0Cache_init_def)

lemma hits_nonneg_update:
  assumes "hits_nonneg c" "0 \<le> hit_count e"
  shows "hits_nonneg (c\<lparr>heap := (heap c)[r := e]\<rparr>)"
proof -
  have "0 \<le> hit_count x" if "x \<in> set ((heap c)[r := e])" for x
    using that assms set_update_subset_insert [of "heap c" r e]
    by (auto simp: hits_nonneg_def list_all_iff)
  then show ?thesis by (simp add: hits_nonneg_def list_all_iff)
qed

lemma hits_nonneg_record_hit:
  assumes "hits_nonneg c" "r < length (heap c)"
  shows "hits_nonneg (record_hit c r s)"
proof -
  from assms have "0 \<le> hit_count (heap c ! r)"
    by (simp add: hits_nonneg_def list_all_length)
  with assms(1) show ?thesis
    unfolding record_hit_def by (intro hits_nonneg_update) simp_all
qed

lemma hits_nonneg_mark_failed:
  assumes "hits_nonneg c" "r < length (heap c)"
  shows "hits_nonneg (mark_failed c r)"
proof -
  from assms have "0 \<le> hit_count (heap c ! r)"
    by (simp add: hits_nonneg_def list_all_length)
  with assms(1) show ?thesis
    unfolding mark_failed_def by (intro hits_nonneg_update) simp_all
qed

lemma hits_nonneg_evict: "hits_nonneg c \<Longrightarrow> hits_nonneg (evict c r)"
  by (simp add: hits_nonneg_def evict_def)

lemma hits_nonneg_store:
  assumes "hits_nonneg c" "store c fp acts post stp = Inr c'"
  shows "hits_nonneg c'"
proof -
  from assms(2) have "heap c' = heap c @ [new_entry fp acts post stp]"
    by (auto simp: store_def setitem_new_def split: if_splits sum.splits)
  with assms(1) show ?thesis
    by (simp add: hits_nonneg_def new_entry_def)
qed

section \<open>Verification of a replay\<close>

lemma mark_failed_fields [simp]:
  "entries (mark_failed c r) = entries c"
  "max_reuse (mark_failed c r) = max_reuse c"
  "hash_threshold (mark_failed c r) = hash_threshold c"
  "max_entries (mark_failed c r) = max_entries c"
  "heap (mark_failed c r) = (heap c)[r := (heap c ! r)\<lparr>succeeded := False\<rparr>]"
  by (simp_all add: mark_failed_def)

lemma evict_fields [simp]:
  "entries (evict c r) = AList.delete (fingerprint (heap c ! r)) (entries c)"
  "heap (evict c r) = heap c"
  by (simp_all add: evict_def)

text \<open>
  C3. For an entry object \<open>entry\<close> of the cache: when \<open>success\<close> is false,
  \<open>verify_and_commit\<close> returns false and the entry is marked failed (nothing else
  changes); otherwise, when \<open>post_fp\<close> is present and equals the entry's fingerprint,
  it returns false and the cache no longer has an entry under that fingerprint (every
  other key keeps its entry); otherwise it returns true, the entry's hit count is one
  higher and its last-used stp is \<open>stp\<close> (the dictionary and every other entry
  object are unchanged).
\<close>

theorem verify_and_commit_spec:
  assumes "entry < length (heap (cache rt))"
  shows "(let c = cache rt; e = heap c ! entry;
             res = verify_and_commit rt entry post_fp stp success;
             c' = cache (fst res); ok = snd res in
          if \<not> success then
            \<not> ok \<and> heap c' ! entry = e\<lparr>succeeded := False\<rparr> \<and> \<not> eligible c' entry
            \<and> entries c' = entries c \<and> (\<forall>r. r \<noteq> entry \<longrightarrow> heap c' ! r = heap c ! r)
          else if post_fp = Some (fingerprint e) then
            \<not> ok \<and> map_of (entries c') (fingerprint e) = None
            \<and> (\<forall>k. k \<noteq> fingerprint e \<longrightarrow> map_of (entries c') k = map_of (entries c) k)
            \<and> heap c' = heap c
          else
            ok \<and> heap c' ! entry = e\<lparr>hit_count := hit_count e + 1, last_step := stp\<rparr>
            \<and> entries c' = entries c \<and> (\<forall>r. r \<noteq> entry \<longrightarrow> heap c' ! r = heap c ! r))"
proof -
  let ?c = "cache rt"
  let ?e = "heap ?c ! entry"
  let ?res = "verify_and_commit rt entry post_fp stp success"
  consider (failed) "\<not> success"
    | (stale) "success" "post_fp = Some (fingerprint ?e)"
    | (commit) "success" "post_fp \<noteq> Some (fingerprint ?e)" by blast
  then show ?thesis
  proof cases
    case failed
    then have res: "?res = (rt\<lparr>cache := mark_failed ?c entry\<rparr>, False)"
      by (simp add: verify_and_commit_def)
    from assms have "heap (mark_failed ?c entry) ! entry = ?e\<lparr>succeeded := False\<rparr>"
      by simp
    moreover from this have "\<not> eligible (mark_failed ?c entry) entry"
      by (simp add: eligible_def del: mark_failed_fields)
    ultimately show ?thesis using failed res
      by (simp add: Let_def del: mark_failed_fields) simp
  next
    case stale
    then have res: "?res = (rt\<lparr>cache := evict ?c entry\<rparr>, False)"
      by (simp add: verify_and_commit_def)
    with stale show ?thesis
      by (simp add: Let_def AList.delete_conv')
  next
    case commit
    then have res: "?res = (rt\<lparr>cache := record_hit ?c entry stp\<rparr>, True)"
      by (auto simp: verify_and_commit_def)
    with commit assms show ?thesis
      by (simp add: Let_def record_hit_same record_hit_other)
  qed
qed

section \<open>Storing again after a failure\<close>

lemma lookup_Some_eligible:
  assumes "lookup c fp = Some r"
  shows "eligible c r \<and> r \<in> set (map snd (entries c)) \<and> dist_to c fp r \<le> hash_threshold c"
proof (cases "\<exists>r\<in>set (map snd (entries c)). eligible c r \<and> dist_to c fp r \<le> hash_threshold c")
  case True
  from lookup_hit [OF True] assms show ?thesis by auto
next
  case False
  then have "lookup c fp = None" by (intro lookup_miss) blast
  with assms show ?thesis by simp
qed

text \<open>
  With reuse budget and a threshold that admits an exact match, in a cache that
  satisfies the dictionary invariant: the failed entry is no longer returned, and after
  the later \<open>store\<close> the lookup of \<open>f\<close> returns the fresh entry.
\<close>

lemma fresh_entry_lookup:
  assumes "cache_wf c" and "map_of (entries c) f = Some r"
    and "0 < max_reuse c" and "0 \<le> hash_threshold c"
  shows "lookup (mark_failed c r) f \<noteq> Some r
       \<and> (\<exists>c'. store (mark_failed c r) f acts post stp = Inr c'
             \<and> map_of (entries c') f = Some (length (heap c))
             \<and> heap c' ! length (heap c) = new_entry f acts post stp
             \<and> succeeded (heap c' ! length (heap c))
             \<and> hit_count (heap c' ! length (heap c)) = 0
             \<and> lookup c' f = Some (length (heap c)))"
proof
  let ?m = "mark_failed c r"
  from assms(1,2) have rlen: "r < length (heap c)"
    by (auto simp: cache_wf_iff dest: map_of_SomeD)
  then have "\<not> eligible ?m r" by (simp add: eligible_def)
  with lookup_Some_eligible [of ?m f r] show "lookup ?m f \<noteq> Some r" by blast
  let ?n = "length (heap c)"
  let ?new = "new_entry f acts post stp"
  let ?c' = "setitem_new ?m f ?new"
  from assms(2) have "f \<in> set (map fst (entries ?m))"
    by (auto dest: map_of_SomeD intro: rev_image_eqI)
  then have st: "store ?m f acts post stp = Inr ?c'" by (rule store_existing)
  have wf': "cache_wf ?c'"
    using assms(1) by (intro cache_wf_setitem_new cache_wf_mark_failed) (simp_all add: new_entry_def)
  have bound: "map_of (entries ?c') f = Some ?n"
    by (simp add: AList.update_conv')
  have obj: "heap ?c' ! ?n = ?new"
    by (simp add: nth_append)
  have fresh: "succeeded ?new" "hit_count ?new = 0" "fingerprint ?new = f"
    by (simp_all add: new_entry_def)
  from bound have mem: "?n \<in> set (map snd (entries ?c'))"
    by (auto dest!: map_of_SomeD intro: rev_image_eqI)
  have params: "max_reuse ?c' = max_reuse c" "hash_threshold ?c' = hash_threshold c"
    by simp_all
  have el: "eligible ?c' ?n"
    using assms(3) fresh obj params
    by (simp add: eligible_def del: setitem_new_fields mark_failed_fields)
  have d0: "dist_to ?c' f ?n = 0"
    using fresh obj by (simp add: dist_to_def hamming_distance_zero_iff
        del: setitem_new_fields mark_failed_fields)
  from el d0 mem assms(4) params have
    "\<exists>q\<in>set (map snd (entries ?c')). eligible ?c' q \<and> dist_to ?c' f q \<le> hash_threshold ?c'"
    by (intro bexI [of _ ?n]) (simp_all del: setitem_new_fields mark_failed_fields)
  from lookup_hit [OF this] obtain q where q: "q \<in> set (map snd (entries ?c'))"
    "lookup ?c' f = Some q"
    "\<forall>r'\<in>set (map snd (entries ?c')). eligible ?c' r' \<longrightarrow> dist_to ?c' f q \<le> dist_to ?c' f r'"
    by blast
  from q(3) mem el d0 have "dist_to ?c' f q \<le> 0" by (metis)
  with hamming_distance_nonneg [of f "fingerprint (heap ?c' ! q)"]
  have "hamming_distance f (fingerprint (heap ?c' ! q)) = 0"
    by (simp add: dist_to_def del: setitem_new_fields mark_failed_fields)
  then have "fingerprint (heap ?c' ! q) = f"
    by (simp add: hamming_distance_zero_iff del: setitem_new_fields mark_failed_fields)
  with cache_wf_value_unique [OF wf' q(1)] bound have "q = ?n"
    by (simp del: setitem_new_fields mark_failed_fields)
  with q(2) have "lookup ?c' f = Some ?n" by simp
  with st bound obj fresh(1,2) show "\<exists>c'. store ?m f acts post stp = Inr c'
             \<and> map_of (entries c') f = Some ?n
             \<and> heap c' ! ?n = ?new
             \<and> succeeded (heap c' ! ?n)
             \<and> hit_count (heap c' ! ?n) = 0
             \<and> lookup c' f = Some ?n"
    by (intro exI [of _ ?c']) (simp del: setitem_new_fields mark_failed_fields)
qed

theorem verify_and_commit_spec_witness:
  "0 < length (heap (cache router_one))
   \<and> \<not> snd (verify_and_commit router_one 0 (Some 2000) 2 False)
   \<and> \<not> succeeded (heap (cache (fst (verify_and_commit router_one 0 (Some 2000) 2 False))) ! 0)
   \<and> \<not> snd (verify_and_commit router_one 0 (Some 1000) 2 True)
   \<and> map_of (entries (cache (fst (verify_and_commit router_one 0 (Some 1000) 2 True)))) 1000 = None
   \<and> snd (verify_and_commit router_one 0 (Some 2000) 2 True)
   \<and> hit_count (heap (cache (fst (verify_and_commit router_one 0 (Some 2000) 2 True))) ! 0) = 1
   \<and> last_step (heap (cache (fst (verify_and_commit router_one 0 (Some 2000) 2 True))) ! 0) = 2"
proof -
  have h: "0 < length (heap (cache router_one))"
    by (simp add: router_one_def cache_one_def)
  have e: "heap (cache router_one) ! 0 = new_entry 1000 [pred_click] (Some 2000) 1"
    by (simp add: router_one_def cache_one_def)
  have f: "fingerprint (new_entry 1000 [pred_click] (Some 2000) 1) = 1000"
    "hit_count (new_entry 1000 [pred_click] (Some 2000) 1) = 0"
    by (simp_all add: new_entry_def)
  from verify_and_commit_spec [OF h, of "Some 2000" 2 False]
    verify_and_commit_spec [OF h, of "Some 1000" 2 True]
    verify_and_commit_spec [OF h, of "Some 2000" 2 True] h e f
  show ?thesis
    by (simp add: Let_def)
qed

text \<open>
  C10, the claim as stated fails: in a cache built with \<open>max_reuse = 0\<close>, the entry
  that \<open>store\<close> writes over a failed one is fresh (succeeded, hit count 0) and yet
  not eligible, since its hit count is not below \<open>max_reuse\<close>; \<open>lookup\<close> of its own
  fingerprint returns none.
\<close>

theorem store_after_mark_failed_no_budget:
  "store (L0Cache_init 5 0 256) 1000 [pred_click] (Some 2000) 1 = Inr cache_no_budget
   \<and> store (mark_failed cache_no_budget 0) 1000 [pred_click] (Some 3000) 5 = Inr cache_no_budget_again
   \<and> map_of (entries cache_no_budget_again) 1000 = Some 1
   \<and> succeeded (heap cache_no_budget_again ! 1)
   \<and> hit_count (heap cache_no_budget_again ! 1) = 0
   \<and> \<not> eligible cache_no_budget_again 1
   \<and> lookup cache_no_budget_again 1000 = None"
  by (simp add: store_def L0Cache_init_def cache_no_budget_def cache_no_budget_again_def
      setitem_new_def new_entry_def eligible_def lookup_def)

text \<open>
  C10, amended. For every cache state, after \<open>mark_failed\<close> on the entry stored
  under fingerprint \<open>f\<close>, a later \<open>store\<close> for \<open>f\<close> returns normally and
  replaces that entry with a fresh one with \<open>succeeded = True\<close> and
  \<open>hit_count = 0\<close>. When \<open>max_reuse \<ge> 1\<close> the fresh entry is eligible for
  \<open>lookup\<close>; when moreover \<open>hash_threshold \<ge> 0\<close> and the cache satisfies the
  dictionary invariant, the failed entry was not returned by \<open>lookup\<close> and the lookup
  of \<open>f\<close> now returns the fresh entry.
\<close>

theorem store_after_mark_failed:
  assumes "map_of (entries c) f = Some r"
  shows "\<exists>c'. store (mark_failed c r) f acts post stp = Inr c'
             \<and> map_of (entries c') f = Some (length (heap c))
             \<and> heap c' ! length (heap c) = new_entry f acts post stp
             \<and> succeeded (heap c' ! length (heap c))
             \<and> hit_count (heap c' ! length (heap c)) = 0
             \<and> (1 \<le> max_reuse c \<longrightarrow> eligible c' (length (heap c)))
             \<and> (1 \<le> max_reuse c \<and> 0 \<le> hash_threshold c \<and> cache_wf c \<longrightarrow>
                  lookup (mark_failed c r) f \<noteq> Some r \<and> lookup c' f = Some (length (heap c)))"
proof -
  let ?m = "mark_failed c r"
  let ?n = "length (heap c)"
  let ?new = "new_entry f acts post stp"
  let ?c' = "setitem_new ?m f ?new"
  from assms have "f \<in> set (map fst (entries ?m))"
    by (auto dest: map_of_SomeD intro: rev_image_eqI)
  then have st: "store ?m f acts post stp = Inr ?c'" by (rule store_existing)
  have bound: "map_of (entries ?c') f = Some ?n"
    by (simp add: AList.update_conv')
  have obj: "heap ?c' ! ?n = ?new"
    by (simp add: nth_append)
  have fresh: "succeeded ?new" "hit_count ?new = 0"
    by (simp_all add: new_entry_def)
  have el: "eligible ?c' ?n" if "1 \<le> max_reuse c"
    using that fresh obj by (simp add: eligible_def)
  have look: "lookup ?m f \<noteq> Some r \<and> lookup ?c' f = Some ?n"
    if "1 \<le> max_reuse c \<and> 0 \<le> hash_threshold c \<and> cache_wf c"
  proof -
    from that have h: "cache_wf c" "0 < max_reuse c" "0 \<le> hash_threshold c" by simp_all
    from fresh_entry_lookup [OF h(1) assms h(2,3), of acts post stp] st
    show ?thesis by auto
  qed
  from st bound obj fresh el look show ?thesis
    by (intro exI [of _ ?c']) (simp del: setitem_new_fields mark_failed_fields)
qed

theorem store_after_mark_failed_witness:
  "map_of (entries cache_one) 1000 = Some 0
   \<and> 1 \<le> max_reuse cache_one \<and> 0 \<le> hash_threshold cache_one \<and> cache_wf cache_one
   \<and> (\<exists>c'. store (mark_failed cache_one 0) 1000 [pred_click] (Some 3000) 5 = Inr c'
         \<and> map_of (entries c') 1000 = Some 1
         \<and> succeeded (heap c' ! 1) \<and> hit_count (heap c' ! 1) = 0
         \<and> eligible c' 1
         \<and> lookup (mark_failed cache_one 0) 1000 \<noteq> Some 0
         \<and> lookup c' 1000 = Some 1)"
proof -
  have h1: "cache_wf cache_one"
    by (simp add: cache_wf_def cache_one_def new_entry_def)
  have h2: "map_of (entries cache_one) 1000 = Some 0"
    and h3: "1 \<le> max_reuse cache_one" and h4: "0 \<le> hash_threshold cache_one"
    and len: "length (heap cache_one) = 1"
    by (simp_all add: cache_one_def)
  from store_after_mark_failed [OF h2, of "[pred_click]" "Some 3000" 5] len h1 h3 h4
  have "\<exists>c'. store (mark_failed cache_one 0) 1000 [pred_click] (Some 3000) 5 = Inr c'
         \<and> map_of (entries c') 1000 = Some 1
         \<and> succeeded (heap c' ! 1) \<and> hit_count (heap c' ! 1) = 0
         \<and> eligible c' 1
         \<and> lookup (mark_failed cache_one 0) 1000 \<noteq> Some 0
         \<and> lookup c' 1000 = Some 1"
    by (simp del: mark_failed_fields) blast
  with h1 h2 h3 h4 show ?thesis by blast
qed

section \<open>Control state: the stopped state is terminal\<close>

lemma apply_op_stopped:
  "stopped w \<Longrightarrow> status w = USER_STOPPED \<Longrightarrow>
   stopped (apply_op w x) \<and> status (apply_op w x) = USER_STOPPED"
  by (cases x)
    (simp_all add: pause_def resume_def stop_def set_status_def inject_def pop_injected_def
      Let_def split: list.splits)

lemma apply_op_invariant:
  "(stopped w \<longrightarrow> status w = USER_STOPPED) \<Longrightarrow>
   (stopped (apply_op w x) \<longrightarrow> status (apply_op w x) = USER_STOPPED)"
  by (cases x)
    (auto simp: pause_def resume_def stop_def set_status_def inject_def pop_injected_def
      Let_def split: list.splits)

lemma apply_ops_stopped:
  "stopped w \<Longrightarrow> status w = USER_STOPPED \<Longrightarrow>
   stopped (apply_ops w ops) \<and> status (apply_ops w ops) = USER_STOPPED"
  unfolding apply_ops_def
proof (induction ops arbitrary: w)
  case Nil
  then show ?case by simp
next
  case (Cons x xs)
  from apply_op_stopped [OF Cons.prems, of x] Cons.IH [of "apply_op w x"]
  show ?case by simp
qed

lemma apply_ops_invariant:
  "(stopped w \<longrightarrow> status w = USER_STOPPED) \<Longrightarrow>
   (stopped (apply_ops w ops) \<longrightarrow> status (apply_ops w ops) = USER_STOPPED)"
  unfolding apply_ops_def
proof (induction ops arbitrary: w)
  case Nil
  then show ?case by simp
next
  case (Cons x xs)
  from apply_op_invariant [OF Cons.prems, of x] Cons.IH [of "apply_op w x"]
  show ?case by simp
qed

text \<open>
  C5. In every state reached from the initial control state by a sequence of
  \<open>pause\<close>, \<open>resume\<close>, \<open>stop\<close>, \<open>set_status\<close>, \<open>inject\<close> and
  \<open>pop_injected\<close> calls, a true \<open>stopped\<close> flag comes with status
  \<open>USER_STOPPED\<close>, and both stay so under every further sequence of calls. After
  \<open>stop\<close>, from any state, \<open>set_status RUNNING\<close> leaves the status
  \<open>USER_STOPPED\<close>.
\<close>

theorem stopped_is_terminal:
  "(stopped (apply_ops WorkerControl_init ops) \<longrightarrow>
      status (apply_ops WorkerControl_init ops) = USER_STOPPED
      \<and> stopped (apply_ops (apply_ops WorkerControl_init ops) later)
      \<and> status (apply_ops (apply_ops WorkerControl_init ops) later) = USER_STOPPED)
   \<and> status (set_status (stop w) RUNNING) = USER_STOPPED
   \<and> stopped (set_status (stop w) RUNNING)"
proof (intro conjI impI)
  let ?s = "apply_ops WorkerControl_init ops"
  have init: "stopped WorkerControl_init \<longrightarrow> status WorkerControl_init = USER_STOPPED"
    by (simp add: WorkerControl_init_def)
  assume st: "stopped ?s"
  with apply_ops_invariant [OF init, of ops] show us: "status ?s = USER_STOPPED" by simp
  from apply_ops_stopped [OF st us, of later]
  show "stopped (apply_ops ?s later)" "status (apply_ops ?s later) = USER_STOPPED"
    by simp_all
next
  show "status (set_status (stop w) RUNNING) = USER_STOPPED"
    by (simp add: set_status_def stop_def)
  show "stopped (set_status (stop w) RUNNING)"
    by (simp add: set_status_def stop_def)
qed

theorem stopped_is_terminal_witness:
  "stopped (apply_ops WorkerControl_init [SetStatus RUNNING, Pause, Stop])
   \<and> status (apply_ops (apply_ops WorkerControl_init [SetStatus RUNNING, Pause, Stop])
        [Resume, SetStatus RUNNING, Inject ''go'', PopInjected, SetStatus END]) = USER_STOPPED
   \<and> status (set_status (stop WorkerControl_init) RUNNING) = USER_STOPPED"
proof -
  have "stopped (apply_ops WorkerControl_init [SetStatus RUNNING, Pause, Stop])"
    by (simp add: apply_ops_def stop_def)
  with stopped_is_terminal [of "[SetStatus RUNNING, Pause, Stop]"
      "[Resume, SetStatus RUNNING, Inject ''go'', PopInjected, SetStatus END]" WorkerControl_init]
  show ?thesis by blast
qed

section \<open>Conversation window: the tail by assistant rounds\<close>

lemma assistant_turns_append:
  "assistant_turns (xs @ ys) = assistant_turns xs + assistant_turns ys"
  by (simp add: assistant_turns_def)

lemma assistant_turns_single:
  "assistant_turns [x] = (if role x = ''assistant'' then 1 else 0)"
  by (simp add: assistant_turns_def)

lemma assistant_turns_nonneg: "0 \<le> assistant_turns xs"
  by (simp add: assistant_turns_def)

lemma take_Suc_turns:
  "j < length its \<Longrightarrow>
   assistant_turns (take (Suc j) its) =
     assistant_turns (take j its) + (if role (its ! j) = ''assistant'' then 1 else 0)"
  by (simp add: take_Suc_conv_app_nth assistant_turns_append assistant_turns_single)

text \<open>Too few assistant turns below \<open>j\<close>: the loop ends without a break.\<close>

lemma scan_back_none:
  "j \<le> length its \<Longrightarrow> seen + assistant_turns (take j its) < n \<Longrightarrow> scan_back its n j seen = 0"
proof (induction j arbitrary: seen)
  case 0
  show ?case by simp
next
  case (Suc j)
  from Suc.prems have j: "j < length its" by simp
  show ?case
  proof (cases "role (its ! j) = ''assistant''")
    case True
    with Suc.prems(2) take_Suc_turns [OF j]
    have lt: "(seen + 1) + assistant_turns (take j its) < n" by simp
    with assistant_turns_nonneg [of "take j its"] have "\<not> n \<le> seen + 1" by linarith
    moreover from Suc.IH [OF _ lt] j have "scan_back its n j (seen + 1) = 0" by simp
    ultimately show ?thesis using True by simp
  next
    case False
    with Suc.prems(2) take_Suc_turns [OF j]
    have "seen + assistant_turns (take j its) < n" by simp
    with Suc.IH [of seen] j False show ?thesis by simp
  qed
qed

text \<open>
  The loop breaks at the assistant turn \<open>i\<close> for which the turns from \<open>i\<close> up to
  (not including) \<open>j\<close> hold exactly the missing \<open>n - seen\<close> assistant turns.
\<close>

lemma scan_back_found:
  "j \<le> length its \<Longrightarrow> i < j \<Longrightarrow> role (its ! i) = ''assistant'' \<Longrightarrow>
   seen + assistant_turns (drop i (take j its)) = n \<Longrightarrow> scan_back its n j seen = i"
proof (induction j arbitrary: seen)
  case 0
  then show ?case by simp
next
  case (Suc j)
  from Suc.prems have j: "j < length its" by simp
  from Suc.prems(2) have ij: "i \<le> j" by simp
  have split: "drop i (take (Suc j) its) = drop i (take j its) @ [its ! j]"
    using j ij by (simp add: take_Suc_conv_app_nth)
  show ?case
  proof (cases "i = j")
    case True
    with Suc.prems(3,4) split have "seen + 1 = n"
      by (simp add: assistant_turns_single)
    with True Suc.prems(3) show ?thesis by simp
  next
    case False
    with ij have lt: "i < j" by simp
    have first: "drop i (take j its) = its ! i # drop (Suc i) (take j its)"
      using lt j by (metis Cons_nth_drop_Suc length_take min.absorb2 less_imp_le nth_take)
    have pos: "1 \<le> assistant_turns (drop i (take j its))"
      using Suc.prems(3) assistant_turns_nonneg [of "drop (Suc i) (take j its)"]
        assistant_turns_append [of "[its ! i]" "drop (Suc i) (take j its)"]
      by (simp add: first assistant_turns_single)
    show ?thesis
    proof (cases "role (its ! j) = ''assistant''")
      case True
      with Suc.prems(4) split
      have eq: "(seen + 1) + assistant_turns (drop i (take j its)) = n"
        by (simp add: assistant_turns_append assistant_turns_single)
      with pos have "\<not> n \<le> seen + 1" by linarith
      moreover from Suc.IH [OF _ lt Suc.prems(3) eq] j
      have "scan_back its n j (seen + 1) = i" by simp
      ultimately show ?thesis using True by simp
    next
      case False
      with Suc.prems(4) split
      have "seen + assistant_turns (drop i (take j its)) = n"
        by (simp add: assistant_turns_append assistant_turns_single)
      from Suc.IH [OF _ lt Suc.prems(3) this] j False show ?thesis by simp
    qed
  qed
qed

text \<open>
  C6. For every log and every \<open>n \<ge> 1\<close>: when the log has fewer than \<open>n\<close>
  assistant turns the view is the whole log; otherwise, with \<open>i\<close> the position of
  the \<open>n\<close>-th-last assistant turn (the assistant turn from which on the log holds
  exactly \<open>n\<close> assistant turns), the view is the suffix from \<open>i\<close>, or from
  \<open>i - 1\<close> when the turn just before \<open>i\<close> is a user turn. For the log
  system, user1, assistant1, user2, assistant2 the view for \<open>n = 1\<close> is
  user2, assistant2 and for \<open>n = 2\<close> it is user1, assistant1, user2, assistant2.
\<close>

theorem tail_items_by_rounds_spec:
  "(1 \<le> n \<and> assistant_turns (items s) < n \<longrightarrow> tail_items_by_rounds s n = items s)
   \<and> (1 \<le> n \<and> i < length (items s) \<and> role (items s ! i) = ''assistant''
        \<and> assistant_turns (drop i (items s)) = n \<longrightarrow>
      tail_items_by_rounds s n =
        drop (if 0 < i \<and> role (items s ! (i - 1)) = ''user'' then i - 1 else i) (items s))
   \<and> tail_items_by_rounds example_log 1 = [turn ''user'' ''user2'', turn ''assistant'' ''assistant2'']
   \<and> tail_items_by_rounds example_log 2 =
        [turn ''user'' ''user1'', turn ''assistant'' ''assistant1'',
         turn ''user'' ''user2'', turn ''assistant'' ''assistant2'']"
proof (intro conjI impI)
  assume "1 \<le> n \<and> assistant_turns (items s) < n"
  then have "scan_back (items s) n (length (items s)) 0 = 0"
    by (intro scan_back_none) simp_all
  then show "tail_items_by_rounds s n = items s"
    by (simp add: tail_items_by_rounds_def Let_def)
next
  assume h: "1 \<le> n \<and> i < length (items s) \<and> role (items s ! i) = ''assistant''
        \<and> assistant_turns (drop i (items s)) = n"
  then have "scan_back (items s) n (length (items s)) 0 = i"
    by (intro scan_back_found) simp_all
  with h show "tail_items_by_rounds s n =
        drop (if 0 < i \<and> role (items s ! (i - 1)) = ''user'' then i - 1 else i) (items s)"
    by (auto simp: tail_items_by_rounds_def Let_def)
next
  show "tail_items_by_rounds example_log 1 = [turn ''user'' ''user2'', turn ''assistant'' ''assistant2'']"
    by (simp add: tail_items_by_rounds_def example_log_def turn_def Let_def)
  show "tail_items_by_rounds example_log 2 =
        [turn ''user'' ''user1'', turn ''assistant'' ''assistant1'',
         turn ''user'' ''user2'', turn ''assistant'' ''assistant2'']"
    by (simp add: tail_items_by_rounds_def example_log_def turn_def Let_def)
qed

theorem tail_items_by_rounds_spec_witness:
  "(1::int) \<le> 3 \<and> assistant_turns (items example_log) < 3
   \<and> tail_items_by_rounds example_log 3 = items example_log
   \<and> (1::int) \<le> 2 \<and> 2 < length (items example_log)
   \<and> role (items example_log ! 2) = ''assistant''
   \<and> assistant_turns (drop 2 (items example_log)) = 2
   \<and> 0 < (2::nat) \<and> role (items example_log ! (2 - 1)) = ''user''
   \<and> tail_items_by_rounds example_log 2 = drop (2 - 1) (items example_log)"
proof -
  have few: "assistant_turns (items example_log) < 3"
    by (simp add: assistant_turns_def example_log_def turn_def)
  have pos: "2 < length (items example_log)" "role (items example_log ! 2) = ''assistant''"
    "assistant_turns (drop 2 (items example_log)) = 2"
    "role (items example_log ! (2 - 1)) = ''user''"
    by (simp_all add: assistant_turns_def example_log_def turn_def)
  from tail_items_by_rounds_spec [of 3 example_log 0] few
  have whole: "tail_items_by_rounds example_log 3 = items example_log" by simp
  from tail_items_by_rounds_spec [of 2 example_log 2] pos
  have "tail_items_by_rounds example_log 2 = drop (2 - 1) (items example_log)" by simp
  with few pos whole show ?thesis by simp
qed

text \<open>
  Outside the range of the claim: for \<open>n \<le> 0\<close> the first assistant turn met already
  satisfies the loop's test, so the view is the one for \<open>n = 1\<close>.
\<close>

lemma scan_back_nonpositive:
  "n \<le> 1 \<Longrightarrow> 0 \<le> seen \<Longrightarrow> scan_back its n j seen = scan_back its 1 j seen"
  by (induction j arbitrary: seen) auto

lemma tail_items_by_rounds_nonpositive:
  "n \<le> 0 \<Longrightarrow> tail_items_by_rounds s n = tail_items_by_rounds s 1"
  using scan_back_nonpositive [of n 0 "items s" "length (items s)"]
  by (simp add: tail_items_by_rounds_def)

section \<open>Event hub: publishing never fails and never skips a subscriber\<close>

lemma try_put_cases:
  "try_put q evt = Inr (if full q then q else q\<lparr>queue_items := queue_items q @ [evt]\<rparr>)"
  by (simp add: try_put_def put_nowait_def)

lemma publish_loop_total:
  "publish_loop evt ss =
     Inr (map (\<lambda>(h, q). (h, if full q then q else q\<lparr>queue_items := queue_items q @ [evt]\<rparr>)) ss)"
proof (induction ss)
  case Nil
  show ?case by simp
next
  case (Cons p ps)
  obtain h q where p: "p = (h, q)" by (cases p)
  with Cons.IH show ?case by (simp add: try_put_cases)
qed

text \<open>
  C8. For every hub state and every \<open>publish\<close> call: the call returns normally, the
  subscribers stay the same ones in the same order, a subscriber whose queue is full
  keeps its queue unchanged (the event is dropped for it), and every subscriber whose
  queue has space gets the event appended to its queue, whatever the state of the
  other queues.
\<close>

theorem publish_delivers:
  "\<exists>h'. publish h ty d now = Inr h'
     \<and> map fst (subs h') = map fst (subs h)
     \<and> (\<forall>i<length (subs h).
          if full (snd (subs h ! i)) then snd (subs h' ! i) = snd (subs h ! i)
          else snd (subs h' ! i) =
                 (snd (subs h ! i))\<lparr>queue_items :=
                    queue_items (snd (subs h ! i)) @ [mk_event ty d now]\<rparr>)"
proof -
  let ?evt = "mk_event ty d now"
  let ?f = "\<lambda>(h, q). (h, if full q then q else q\<lparr>queue_items := queue_items q @ [?evt]\<rparr>)"
  let ?h' = "h\<lparr>subs := map ?f (subs h)\<rparr>"
  have pub: "publish h ty d now = Inr ?h'"
    by (simp add: publish_def publish_loop_total)
  have keys: "map fst (subs ?h') = map fst (subs h)"
    by (simp add: case_prod_beta comp_def)
  have each: "if full (snd (subs h ! i)) then snd (subs ?h' ! i) = snd (subs h ! i)
          else snd (subs ?h' ! i) =
                 (snd (subs h ! i))\<lparr>queue_items := queue_items (snd (subs h ! i)) @ [?evt]\<rparr>"
    if "i < length (subs h)" for i
    using that by (simp add: case_prod_beta)
  from pub keys each show ?thesis by blast
qed

theorem publish_delivers_witness:
  "\<exists>h'. publish hub_two ''error'' (Some [(''where'', JStr ''parse'')]) 7 = Inr h'
     \<and> full (snd (subs hub_two ! 0)) \<and> snd (subs h' ! 0) = snd (subs hub_two ! 0)
     \<and> \<not> full (snd (subs hub_two ! 1))
     \<and> queue_items (snd (subs h' ! 1)) = [mk_event ''error'' (Some [(''where'', JStr ''parse'')]) 7]"
proof -
  from publish_delivers [of hub_two "''error''" "Some [(''where'', JStr ''parse'')]" 7]
  obtain h' where h': "publish hub_two ''error'' (Some [(''where'', JStr ''parse'')]) 7 = Inr h'"
    and each: "\<forall>i<length (subs hub_two).
          if full (snd (subs hub_two ! i)) then snd (subs h' ! i) = snd (subs hub_two ! i)
          else snd (subs h' ! i) =
                 (snd (subs hub_two ! i))\<lparr>queue_items :=
                    queue_items (snd (subs hub_two ! i))
                      @ [mk_event ''error'' (Some [(''where'', JStr ''parse'')]) 7]\<rparr>"
    by blast
  have len: "length (subs hub_two) = 2" by (simp add: hub_two_def)
  have f0: "full (snd (subs hub_two ! 0))" and f1: "\<not> full (snd (subs hub_two ! 1))"
    and q1: "queue_items (snd (subs hub_two ! 1)) = []"
    by (simp_all add: hub_two_def full_def)
  from each len f0 have "snd (subs h' ! 0) = snd (subs hub_two ! 0)"
    by (metis zero_less_numeral)
  moreover from each len f1 have "snd (subs h' ! 1) =
      (snd (subs hub_two ! 1))\<lparr>queue_items := queue_items (snd (subs hub_two ! 1))
          @ [mk_event ''error'' (Some [(''where'', JStr ''parse'')]) 7]\<rparr>"
    by (metis one_less_numeral_iff semiring_norm(76))
  ultimately show ?thesis using h' f0 f1 q1 by auto
qed

section \<open>Agent loop: the steps of a cycle\<close>

lemma publish_delivered: "publish h ty d t = Inr (delivered (mk_event ty d t) h)"
  by (simp add: publish_def publish_loop_total delivered_def)

lemma hub_set_status_published:
  "hub_set_status h st extra t = Inr (status_published st extra t h)"
  by (simp add: hub_set_status_def publish_delivered status_published_def status_dict_def Let_def)

lemma hub_publish_eq:
  "hub_publish ty d t w = Inr ((), w\<lparr>hub := delivered (mk_event ty (Some d) t) (hub w)\<rparr>)"
  by (simp add: hub_publish_def publish_delivered)

lemma hub_status_eq:
  "hub_status extra t w =
     Inr ((), w\<lparr>hub := status_published (JStatus (status (control w))) extra t (hub w)\<rparr>)"
  by (simp add: hub_status_def hub_set_status_published)

lemma and_then_Inr [simp]: "and_then (Inr (a, w)) f = f a w"
  by (simp add: and_then_def)

lemma and_then_Inl [simp]: "and_then (Inl ew) f = Inl ew"
  by (simp add: and_then_def)

lemma hang_eq:
  "hang extra reason env w =
     Inr (Next,
       w\<lparr>control := pause (set_status (control w) HANG),
         hub := delivered (mk_event ''hang'' (Some [(''reason'', JStr reason)]) (clock env))
                  (status_published (JStatus (status (pause (set_status (control w) HANG))))
                     extra (clock env) (hub w))\<rparr>)"
  by (simp add: hang_def ctl_def hub_status_eq hub_publish_eq)

lemma note_parse_error:
  assumes "action_type pred = ''error_env''"
  shows "note_parse env pred w =
     (let wg = w\<lparr>parse_err_streak := parse_err_streak w + 1,
                 hub := delivered
                   (mk_event ''error''
                      (Some [(''where'', JStr ''parse''), (''streak'', JInt (parse_err_streak w + 1)),
                             (''raw'', JStr (raw_action pred))]) (clock env)) (hub w)\<rparr>
      in if 3 \<le> parse_err_streak w + 1
         then hang [(''reason'', JStr ''parse_error_streak'')] ''parse_error_streak'' env wg
         else Inr (Proceed, wg))"
  using assms by (simp add: note_parse_def hub_publish_eq Let_def)

lemma note_parse_ok:
  "action_type pred \<noteq> ''error_env'' \<Longrightarrow>
   note_parse env pred w = Inr (Proceed, w\<lparr>parse_err_streak := 0\<rparr>)"
  by (simp add: note_parse_def)

lemma finish_stopped_outcome:
  "\<exists>w'. finish_stopped env w = Inr (Finished, w') \<and> parse_err_streak w' = parse_err_streak w"
  by (simp add: finish_stopped_def ctl_def hub_status_eq monitor_stop_def called_def)

lemma pause_wait_Proceed:
  "pause_wait env ps w = Inr (Proceed, wg) \<Longrightarrow> \<not> stopped (control w) \<Longrightarrow>
   \<not> paused (control wg) \<and> \<not> stopped (control wg)
   \<and> parse_err_streak wg = parse_err_streak w \<and> step wg = step w \<and> cfg wg = cfg w
   \<and> prefix (calls w) (calls wg)"
proof (induction ps arbitrary: w)
  case Nil
  then show ?case by (auto split: if_splits)
next
  case (Cons ops rest)
  show ?case
  proof (cases "paused (control w)")
    case False
    with Cons.prems show ?thesis by auto
  next
    case True
    let ?wg = "w\<lparr>calls := calls w @ [Sleep], control := apply_ops (control w) ops\<rparr>"
    show ?thesis
    proof (cases "stopped (control ?wg)")
      case st: True
      with True Cons.prems(1) finish_stopped_outcome [of env ?wg] show ?thesis
        by (auto simp: Let_def)
    next
      case st: False
      with True Cons.prems(1) have "pause_wait env rest ?wg = Inr (Proceed, wg)"
        by (simp add: Let_def)
      from Cons.IH [OF this st] show ?thesis
        by (auto dest: append_prefixD)
    qed
  qed
qed

lemma effect_ok:
  "fails env c = None \<Longrightarrow> effect env c w = Inr ((), w\<lparr>calls := calls w @ [c]\<rparr>)"
  by (simp add: effect_def collab_def)

lemma effect_fails:
  "fails env c = Some e \<Longrightarrow> effect env c w = Inl (e, w\<lparr>calls := calls w @ [c]\<rparr>)"
  by (simp add: effect_def collab_def)

lemma take_injected_Inr:
  assumes "take_injected env w = Inr (u, w')"
  shows "stopped (control w') = stopped (control w)
     \<and> paused (control w') = paused (control w) \<and> parse_err_streak w' = parse_err_streak w
     \<and> step w' = step w \<and> cfg w' = cfg w \<and> prefix (calls w) (calls w')"
proof (cases "injected (control w)")
  case Nil
  with assms show ?thesis
    by (auto simp: take_injected_def pop_injected_def)
next
  case (Cons t rest)
  show ?thesis
  proof (cases "t = []")
    case True
    with Cons assms show ?thesis
      by (auto simp: take_injected_def pop_injected_def)
  next
    case False
    let ?txt = "''[Supervisor Guidance]'' @ [CHR 0x0A] @ t"
    show ?thesis
    proof (cases "fails env (LogConversation ''user'' ?txt)")
      case None
      with Cons False assms show ?thesis
        by (auto simp: take_injected_def pop_injected_def conv_add_def effect_ok
            publish_conv_def hub_publish_eq Let_def)
    next
      case (Some e)
      with Cons False assms show ?thesis
        by (simp add: take_injected_def pop_injected_def conv_add_def effect_fails Let_def)
    qed
  qed
qed

lemma begin_cycle_Proceed:
  assumes "begin_cycle env w = Inr (Proceed, wg)"
  shows "\<not> paused (control wg) \<and> \<not> stopped (control wg)
   \<and> parse_err_streak wg = parse_err_streak w \<and> step wg = step w + 1
   \<and> prefix (calls w) (calls wg)"
proof -
  have ns: "\<not> stopped (control w)"
  proof
    assume "stopped (control w)"
    with assms finish_stopped_outcome [of env w] show False
      by (auto simp: begin_cycle_def)
  qed
  with assms obtain g wp where g: "pause_wait env (polls env) w = Inr (g, wp)"
    by (cases "pause_wait env (polls env) w") (auto simp: begin_cycle_def)
  with assms ns have gp: "g = Proceed"
    by (auto simp: begin_cycle_def split: if_splits)
  from pause_wait_Proceed [OF g [unfolded gp] ns]
  have wp: "\<not> paused (control wp)" "\<not> stopped (control wp)"
    "parse_err_streak wp = parse_err_streak w" "step wp = step w" "prefix (calls w) (calls wp)"
    by simp_all
  from assms ns g gp obtain wi where ti: "take_injected env wp = Inr ((), wi)"
    by (cases "take_injected env wp") (auto simp: begin_cycle_def)
  from take_injected_Inr [OF ti]
  have wi: "stopped (control wi) = stopped (control wp)" "paused (control wi) = paused (control wp)"
    "parse_err_streak wi = parse_err_streak wp" "step wi = step wp"
    "prefix (calls wp) (calls wi)"
    by simp_all
  from assms ns g gp ti have "wg = wi\<lparr>step := step wi + 1\<rparr>"
    by (auto simp: begin_cycle_def Let_def ctl_def hub_status_eq monitor_stop_def called_def
        split: if_splits)
  with wp wi show ?thesis
    by (auto intro: prefix_order.trans)
qed

lemma resize_for_model_eq:
  "resize_for_model env shot w =
     Inr (sent_image env shot,
          w\<lparr>calls := calls w @ SmartResize (image_width shot) (image_height shot)
                 # (if resizes env shot
                    then [ResizeJpeg (fst (resize_target env)) (snd (resize_target env))] else [])\<rparr>)"
  by (cases "resize_target env")
    (auto simp: resize_for_model_def called_def sent_image_def resizes_def)

lemma build_messages_calls [simp]: "build_messages (w\<lparr>calls := cs\<rparr>) b = build_messages w b"
  by (simp add: build_messages_def)

text \<open>
  From the capture to the model. A failing recording of the screenshot ends the body
  before the model is reached.
\<close>

lemma invoke_on_screen_eq:
  assumes "capture_result env = Inr shot" and "fails env (WriteStep (step w) ''screenshot'') = None"
  shows "invoke_on_screen env w =
     (case invoke_result env of
        Inl e \<Rightarrow> Inl (e, w\<lparr>calls := calls w @ screen_calls env shot (step w)
                               @ [InvokeModel (build_messages w (sent_image env shot))]\<rparr>)
      | Inr reply \<Rightarrow> Inr ((shot, reply),
                        w\<lparr>calls := calls w @ screen_calls env shot (step w)
                               @ [InvokeModel (build_messages w (sent_image env shot))]\<rparr>))"
  using assms
  by (simp add: invoke_on_screen_def collab_def effect_ok resize_for_model_eq screen_calls_def
      Let_def split: sum.splits)

lemma invoke_on_screen_unrecorded:
  assumes "capture_result env = Inr shot"
    and "fails env (WriteStep (step w) ''screenshot'') = Some e"
  shows "invoke_on_screen env w =
     Inl (e, w\<lparr>calls := calls w @ [Capture, WriteStep (step w) ''screenshot'']\<rparr>)"
  using assms
  by (simp add: invoke_on_screen_def collab_def effect_fails Let_def)

lemma log_reply_eq:
  assumes "\<forall>c\<in>set (reply_calls reply (step w)). fails env c = None"
  shows "log_reply env reply w =
     (let w1 = w\<lparr>calls := calls w @ [WriteStep (step w) ''raw_model_text'', LogEvent ''model'',
                                     LogConversation ''assistant'' (prediction reply)],
                 conversation := add (conversation w) ''assistant'' (prediction reply) (clock env) [],
                 hub := delivered (mk_event ''conversation''
                          (Some [(''role'', JStr ''assistant''), (''text'', JStr (prediction reply))])
                          (clock env)) (hub w)\<rparr>
      in case parsed_predictions reply of
           [] \<Rightarrow> Inl (IndexError, w1)
         | p # _ \<Rightarrow> Inr (p, w1\<lparr>calls := calls w1 @ [WriteStep (step w) ''action'']\<rparr>))"
  using assms
  by (simp add: log_reply_def effect_ok reply_calls_def conv_add_def publish_conv_def
      hub_publish_eq first_prediction_def Let_def split: list.splits)

lemma handle_prediction_parked:
  "note_parse env pred w = Inr (Next, w') \<Longrightarrow> handle_prediction env pred w = Inr (Next, w')"
  by (simp add: handle_prediction_def)

lemma pause_HANG:
  "\<not> stopped c \<Longrightarrow> status (pause (set_status c HANG)) = HANG \<and> paused (pause (set_status c HANG))
     \<and> \<not> stopped (pause (set_status c HANG))"
  by (simp add: pause_def set_status_def)

lemma paused_pause: "paused (pause c)"
  by (simp add: pause_def Let_def)

text \<open>
  C7. When the first parsed action is of the parse-error type \<open>error_env\<close>, the
  streak is incremented and an \<open>error\<close> event with the new streak is published;
  below 3 the loop goes on with the rest of the body; from 3 on it sets the status
  \<open>HANG\<close> (\<open>USER_STOPPED\<close> stays if the run was stopped meanwhile), pauses,
  publishes the status and a \<open>hang\<close> event and continues with the next iteration,
  with no further call to a collaborator in that cycle. Any other first action resets
  the streak to 0. For a whole cycle that passes the gates, captures the screen,
  records without failure and receives a reply whose first action is \<open>error_env\<close>
  with the streak reaching 3, the cycle ends in \<open>Next\<close>, the loop goes on to the
  following cycle, the status is \<open>HANG\<close> and \<open>paused\<close> is set, and the calls of
  the cycle end with the recording of the action.
\<close>

theorem parse_error_streak_spec:
  "(action_type pred = ''error_env'' \<and> parse_err_streak w + 1 < 3 \<longrightarrow>
      note_parse env pred w =
        Inr (Proceed,
             w\<lparr>parse_err_streak := parse_err_streak w + 1,
               hub := delivered (parse_error_event env pred (parse_err_streak w + 1)) (hub w)\<rparr>))
   \<and> (action_type pred = ''error_env'' \<and> 3 \<le> parse_err_streak w + 1 \<longrightarrow>
      handle_prediction env pred w =
        Inr (Next,
             w\<lparr>parse_err_streak := parse_err_streak w + 1,
               control := pause (set_status (control w) HANG),
               hub := delivered (hang_event env ''parse_error_streak'')
                        (status_published (JStatus (status (pause (set_status (control w) HANG))))
                           [(''reason'', JStr ''parse_error_streak'')] (clock env)
                           (delivered (parse_error_event env pred (parse_err_streak w + 1))
                              (hub w)))\<rparr>))
   \<and> (action_type pred \<noteq> ''error_env'' \<longrightarrow>
      note_parse env pred w = Inr (Proceed, w\<lparr>parse_err_streak := 0\<rparr>))
   \<and> (begin_cycle env ws = Inr (Proceed, wg) \<and> capture_result env = Inr shot
        \<and> invoke_result env = Inr reply \<and> parsed_predictions reply = pred # others
        \<and> (\<forall>c\<in>set (WriteStep (step wg) ''screenshot'' # reply_calls reply (step wg)).
              fails env c = None)
        \<and> action_type pred = ''error_env'' \<and> 3 \<le> parse_err_streak ws + 1 \<longrightarrow>
      (\<exists>w'. cycle env ws = Inr (Next, w')
          \<and> run_loop (env # envs) ws = run_loop envs w'
          \<and> parse_err_streak w' = parse_err_streak ws + 1
          \<and> status (control w') = HANG \<and> paused (control w') \<and> \<not> stopped (control w')
          \<and> calls w' = calls wg @ screen_calls env shot (step wg)
                @ [InvokeModel (build_messages wg (sent_image env shot))]
                @ reply_calls reply (step wg)))"
proof (intro conjI impI)
  assume "action_type pred = ''error_env'' \<and> parse_err_streak w + 1 < 3"
  then show "note_parse env pred w =
        Inr (Proceed,
             w\<lparr>parse_err_streak := parse_err_streak w + 1,
               hub := delivered (parse_error_event env pred (parse_err_streak w + 1)) (hub w)\<rparr>)"
    by (simp add: note_parse_error parse_error_event_def Let_def)
next
  assume h: "action_type pred = ''error_env'' \<and> 3 \<le> parse_err_streak w + 1"
  then have "note_parse env pred w =
        Inr (Next,
             w\<lparr>parse_err_streak := parse_err_streak w + 1,
               control := pause (set_status (control w) HANG),
               hub := delivered (hang_event env ''parse_error_streak'')
                        (status_published (JStatus (status (pause (set_status (control w) HANG))))
                           [(''reason'', JStr ''parse_error_streak'')] (clock env)
                           (delivered (parse_error_event env pred (parse_err_streak w + 1))
                              (hub w)))\<rparr>)"
    by (simp add: note_parse_error hang_eq parse_error_event_def hang_event_def Let_def)
  then show "handle_prediction env pred w =
        Inr (Next,
             w\<lparr>parse_err_streak := parse_err_streak w + 1,
               control := pause (set_status (control w) HANG),
               hub := delivered (hang_event env ''parse_error_streak'')
                        (status_published (JStatus (status (pause (set_status (control w) HANG))))
                           [(''reason'', JStr ''parse_error_streak'')] (clock env)
                           (delivered (parse_error_event env pred (parse_err_streak w + 1))
                              (hub w)))\<rparr>)"
    by (rule handle_prediction_parked)
next
  assume "action_type pred \<noteq> ''error_env''"
  then show "note_parse env pred w = Inr (Proceed, w\<lparr>parse_err_streak := 0\<rparr>)"
    by (rule note_parse_ok)
next
  assume h: "begin_cycle env ws = Inr (Proceed, wg) \<and> capture_result env = Inr shot
        \<and> invoke_result env = Inr reply \<and> parsed_predictions reply = pred # others
        \<and> (\<forall>c\<in>set (WriteStep (step wg) ''screenshot'' # reply_calls reply (step wg)).
              fails env c = None)
        \<and> action_type pred = ''error_env'' \<and> 3 \<le> parse_err_streak ws + 1"
  then have bc: "begin_cycle env ws = Inr (Proceed, wg)" by simp
  from begin_cycle_Proceed [OF bc]
  have wg_facts: "\<not> stopped (control wg)" "parse_err_streak wg = parse_err_streak ws" by simp_all
  let ?w2 = "wg\<lparr>calls := calls wg @ screen_calls env shot (step wg)
                 @ [InvokeModel (build_messages wg (sent_image env shot))]\<rparr>"
  from h have inv: "invoke_on_screen env wg = Inr ((shot, reply), ?w2)"
    by (simp add: invoke_on_screen_eq)
  obtain w3 where log: "log_reply env reply ?w2 = Inr (pred, w3)"
    and w3: "calls w3 = calls ?w2 @ reply_calls reply (step wg)"
      "control w3 = control wg" "parse_err_streak w3 = parse_err_streak wg"
    using h by (simp add: log_reply_eq) (simp add: reply_calls_def Let_def)
  let ?c = "pause (set_status (control w3) HANG)"
  obtain w4 where hp: "handle_prediction env pred w3 = Inr (Next, w4)"
    and w4: "calls w4 = calls w3" "control w4 = ?c"
      "parse_err_streak w4 = parse_err_streak w3 + 1"
  proof -
    from h wg_facts w3 have "note_parse env pred w3 =
        Inr (Next,
             w3\<lparr>parse_err_streak := parse_err_streak w3 + 1, control := ?c,
                hub := delivered (hang_event env ''parse_error_streak'')
                        (status_published (JStatus (status ?c))
                           [(''reason'', JStr ''parse_error_streak'')] (clock env)
                           (delivered (parse_error_event env pred (parse_err_streak w3 + 1))
                              (hub w3)))\<rparr>)"
      by (simp add: note_parse_error hang_eq parse_error_event_def hang_event_def Let_def)
    from handle_prediction_parked [OF this] that show ?thesis by simp
  qed
  from bc inv log hp have body: "cycle_body env ws = Inr (Next, w4)"
    by (simp add: cycle_body_def)
  then have cyc: "cycle env ws = Inr (Next, w4)"
    by (simp add: cycle_def)
  then have loop: "run_loop (env # envs) ws = run_loop envs w4"
    by simp
  from wg_facts(1) w3(2) w4(2) pause_HANG [of "control wg"]
  have ctl: "status (control w4) = HANG" "paused (control w4)" "\<not> stopped (control w4)"
    by simp_all
  from w4 w3 wg_facts have "parse_err_streak w4 = parse_err_streak ws + 1"
    "calls w4 = calls wg @ screen_calls env shot (step wg)
       @ [InvokeModel (build_messages wg (sent_image env shot))] @ reply_calls reply (step wg)"
    by simp_all
  with cyc loop ctl show "\<exists>w'. cycle env ws = Inr (Next, w')
          \<and> run_loop (env # envs) ws = run_loop envs w'
          \<and> parse_err_streak w' = parse_err_streak ws + 1
          \<and> status (control w') = HANG \<and> paused (control w') \<and> \<not> stopped (control w')
          \<and> calls w' = calls wg @ screen_calls env shot (step wg)
                @ [InvokeModel (build_messages wg (sent_image env shot))]
                @ reply_calls reply (step wg)"
    by blast
qed

section \<open>Agent loop: what a cycle calls\<close>

lemma grows_refl: "grows w (Inr (a, w))"
  by (simp add: grows_def state_of_def)

lemma grows_and_then:
  assumes "grows w m" and "\<And>a w'. grows w' (f a w')"
  shows "grows w (and_then m f)"
proof (cases m)
  case (Inl ew)
  with assms(1) show ?thesis by (simp add: grows_def state_of_def)
next
  case (Inr aw)
  obtain a w' where aw: "aw = (a, w')" by (cases aw)
  with Inr assms(1) have "prefix (calls w) (calls w')"
    by (simp add: grows_def state_of_def)
  moreover from assms(2) [of w' a] have "prefix (calls w') (calls (state_of (f a w')))"
    by (simp add: grows_def)
  ultimately have "prefix (calls w) (calls (state_of (f a w')))"
    by (rule prefix_order.trans)
  with Inr aw show ?thesis
    by (simp add: grows_def)
qed

lemma grows_steps:
  "grows w (ctl f w)" "grows w (called c w)" "grows w (hub_publish ty d t w)"
  "grows w (hub_status extra t w)" "grows w (monitor_stop w)" "grows w (conv_add r x t m w)"
  "grows w (publish_conv r x t w)" "grows w (first_prediction reply w)"
  by (simp_all add: grows_def state_of_def ctl_def called_def hub_publish_eq hub_status_eq
      monitor_stop_def conv_add_def publish_conv_def first_prediction_def split: list.splits)

lemma grows_collab: "grows w (collab c r w)"
  by (cases r) (simp_all add: grows_def state_of_def collab_def Let_def)

lemma grows_effect: "grows w (effect env c w)"
  unfolding effect_def by (rule grows_collab)

lemma grows_hang: "grows w (hang extra reason env w)"
  by (simp add: hang_eq grows_def state_of_def)

lemma grows_end_run: "grows w (end_run s env w)"
  unfolding end_run_def
  by (intro grows_and_then grows_steps grows_refl)

lemma grows_note_parse: "grows w (note_parse env pred w)"
  by (cases "action_type pred = ''error_env''")
    (simp_all add: note_parse_error note_parse_ok Let_def hang_eq grows_def state_of_def)

lemma grows_execute_step: "grows w (execute_step env pred w)"
  unfolding execute_step_def
  by (intro grows_and_then grows_steps grows_collab grows_effect grows_refl)

lemma grows_handle_prediction: "grows w (handle_prediction env pred w)"
  unfolding handle_prediction_def
  by (intro grows_and_then grows_note_parse)
    (simp add: grows_refl grows_hang grows_end_run grows_execute_step)

lemma grows_on_exception: "grows w (on_exception env e w)"
  unfolding on_exception_def
  by (intro grows_and_then grows_steps grows_effect grows_refl)

lemma grows_log_reply: "grows w (log_reply env reply w)"
  unfolding log_reply_def
  by (intro grows_and_then grows_steps grows_effect grows_refl)

lemma grows_handled:
  assumes "grows w m"
  shows "grows w (case m of Inl (e, w') \<Rightarrow> on_exception env e w' | Inr r \<Rightarrow> Inr r)"
proof (cases m)
  case (Inl ew)
  obtain e w' where ew: "ew = (e, w')" by (cases ew)
  with Inl assms have "prefix (calls w) (calls w')"
    by (simp add: grows_def state_of_def)
  moreover from grows_on_exception [of w' env e]
  have "prefix (calls w') (calls (state_of (on_exception env e w')))"
    by (simp add: grows_def)
  ultimately have "prefix (calls w) (calls (state_of (on_exception env e w')))"
    by (rule prefix_order.trans)
  with Inl ew show ?thesis
    by (simp add: grows_def)
next
  case (Inr r)
  with assms show ?thesis by simp
qed


text \<open>
  Every cycle that passes the gates, captures the screen and records the screenshot
  goes on to the model: its calls after the gates start with the capture, the
  recording, the resize computation and the model invocation, whatever happens later
  in the cycle.
\<close>

lemma cycle_invokes_model:
  assumes "begin_cycle env w = Inr (Proceed, wg)" and "capture_result env = Inr shot"
    and "fails env (WriteStep (step wg) ''screenshot'') = None"
  shows "prefix (calls wg @ screen_calls env shot (step wg)
                  @ [InvokeModel (build_messages wg (sent_image env shot))])
           (calls (state_of (cycle env w)))"
proof -
  let ?w2 = "wg\<lparr>calls := calls wg @ screen_calls env shot (step wg)
                 @ [InvokeModel (build_messages wg (sent_image env shot))]\<rparr>"
  have "\<exists>m. cycle_body env w = m \<and> grows ?w2 m"
  proof (cases "invoke_result env")
    case (Inl e)
    with assms have "cycle_body env w = Inl (e, ?w2)"
      by (simp add: cycle_body_def invoke_on_screen_eq)
    then show ?thesis by (simp add: grows_def state_of_def)
  next
    case (Inr reply)
    with assms have "cycle_body env w =
        and_then (log_reply env reply ?w2) (\<lambda>pred w. handle_prediction env pred w)"
      by (simp add: cycle_body_def invoke_on_screen_eq)
    moreover have "grows ?w2
        (and_then (log_reply env reply ?w2) (\<lambda>pred w. handle_prediction env pred w))"
      by (intro grows_and_then grows_log_reply grows_handle_prediction)
    ultimately show ?thesis by simp
  qed
  then have "grows ?w2 (cycle env w)"
    unfolding cycle_def by (auto intro: grows_handled)
  then show ?thesis
    by (simp add: grows_def)
qed

text \<open>The gates of a worker that is neither stopped nor paused and has no guidance waiting.\<close>

lemma begin_cycle_plain:
  assumes "\<not> stopped (control w)" "\<not> paused (control w)" "injected (control w) = []"
    and "step w + 1 \<le> max_loop_count (cfg w)"
  shows "begin_cycle env w = Inr (Proceed, w\<lparr>step := step w + 1\<rparr>)"
proof -
  from assms(2) have "pause_wait env (polls env) w = Inr (Proceed, w)"
    by (cases "polls env") simp_all
  with assms show ?thesis
    by (simp add: begin_cycle_def take_injected_def pop_injected_def)
qed

text \<open>
  A cycle that passes the gates, in which every collaborator succeeds and the model's
  first action is neither a terminal one nor a parse error that makes the streak reach
  3: the model is invoked and its action executed.
\<close>

lemma cycle_executes:
  assumes gates: "begin_cycle env w = Inr (Proceed, wg)"
    and cap: "capture_result env = Inr shot" and inv: "invoke_result env = Inr reply"
    and first: "parsed_predictions reply = pred # others"
    and rec: "\<forall>c\<in>set (WriteStep (step wg) ''screenshot'' # reply_calls reply (step wg)
                      @ [WriteStep (step wg) ''exec_result'', LogEvent ''exec'', Sleep]).
                fails env c = None"
    and plain: "action_type pred = ''error_env'' \<longrightarrow> parse_err_streak w + 1 < 3"
      "action_type pred \<noteq> ''finished''" "action_type pred \<noteq> ''call_user''"
    and act: "activate_result env = None" and exe: "execute_result env = Inr res"
  shows "\<exists>w'. cycle env w = Inr (Next, w')
     \<and> calls w' = calls wg @ screen_calls env shot (step wg)
          @ [InvokeModel (build_messages wg (sent_image env shot))]
          @ reply_calls reply (step wg)
          @ [ActivateApp, ExecuteAction pred, WriteStep (step wg) ''exec_result'',
             LogEvent ''exec'', Sleep]
     \<and> control w' = set_status (control wg) RUNNING
     \<and> conversation w' = add (conversation wg) ''assistant'' (prediction reply) (clock env) []
     \<and> step w' = step wg \<and> cfg w' = cfg wg \<and> system w' = system wg
     \<and> parse_err_streak w' =
          (if action_type pred = ''error_env'' then parse_err_streak w + 1 else 0)"
proof -
  let ?w2 = "wg\<lparr>calls := calls wg @ screen_calls env shot (step wg)
                 @ [InvokeModel (build_messages wg (sent_image env shot))]\<rparr>"
  from begin_cycle_Proceed [OF gates] have streak: "parse_err_streak wg = parse_err_streak w"
    by simp
  from cap inv rec have i: "invoke_on_screen env wg = Inr ((shot, reply), ?w2)"
    by (simp add: invoke_on_screen_eq)
  obtain w3 where log: "log_reply env reply ?w2 = Inr (pred, w3)"
    and w3: "calls w3 = calls ?w2 @ reply_calls reply (step wg)"
      "control w3 = control wg" "step w3 = step wg" "cfg w3 = cfg wg" "system w3 = system wg"
      "conversation w3 = add (conversation wg) ''assistant'' (prediction reply) (clock env) []"
      "parse_err_streak w3 = parse_err_streak wg"
    using first rec by (simp add: log_reply_eq) (simp add: reply_calls_def Let_def)
  obtain w3' where np: "note_parse env pred w3 = Inr (Proceed, w3')"
    and w3': "calls w3' = calls w3" "control w3' = control w3" "step w3' = step w3"
      "cfg w3' = cfg w3" "system w3' = system w3" "conversation w3' = conversation w3"
      "parse_err_streak w3' =
         (if action_type pred = ''error_env'' then parse_err_streak w + 1 else 0)"
  proof (cases "action_type pred = ''error_env''")
    case True
    with plain(1) streak w3(7) have "\<not> 3 \<le> parse_err_streak w3 + 1" by simp
    with True streak w3(7) that show ?thesis
      by (simp add: note_parse_error Let_def)
  next
    case False
    with that show ?thesis by (simp add: note_parse_ok)
  qed
  from rec w3(3) w3'(3) have ok: "fails env (WriteStep (step w3') ''exec_result'') = None"
    "fails env (LogEvent ''exec'') = None" "fails env Sleep = None"
    by simp_all
  obtain w4 where ex: "handle_prediction env pred w3 = Inr (Next, w4)"
    and w4: "calls w4 = calls w3' @ [ActivateApp, ExecuteAction pred,
                WriteStep (step wg) ''exec_result'', LogEvent ''exec'', Sleep]"
      "control w4 = set_status (control w3') RUNNING" "step w4 = step w3'" "cfg w4 = cfg w3'"
      "system w4 = system w3'" "conversation w4 = conversation w3'"
      "parse_err_streak w4 = parse_err_streak w3'"
    using plain(2,3) act exe ok w3(3) w3'(3)
    by (simp add: handle_prediction_def np execute_step_def collab_def effect_ok ctl_def
        hub_status_eq Let_def)
  from gates i log ex have "cycle_body env w = Inr (Next, w4)"
    by (simp add: cycle_body_def)
  then have "cycle env w = Inr (Next, w4)"
    by (simp add: cycle_def)
  with w3 w3' w4 show ?thesis by simp
qed

section \<open>Agent loop: two runs from a new worker\<close>

text \<open>The start of a run up to the loop, for the new worker of the examples.\<close>

lemma run_started:
  "\<exists>w0. run ''open settings'' None env_pre envs worker_init = run_loop envs w0
     \<and> control w0 = \<lparr>status = RUNNING, paused = False, stopped = False, injected = []\<rparr>
     \<and> step w0 = 0 \<and> parse_err_streak w0 = 0 \<and> cfg w0 = cfg worker_init
     \<and> system w0 = ''sys''
     \<and> conversation w0 = \<lparr>items = [\<lparr>role = ''system'', item_text = ''sys'', ts = 0, meta = []\<rparr>,
                                     \<lparr>role = ''user'', item_text = ''open settings'', ts = 0, meta = []\<rparr>]\<rparr>
     \<and> calls w0 = [MonitorStart, LaunchApp, LogConversation ''system'' ''sys'',
                   LogConversation ''user'' ''open settings'']"
  by (simp add: run_def ctl_def hub_status_eq called_def collab_def effect_def conv_add_def
      publish_conv_def hub_publish_eq worker_init_def env_pre_def env_demo_def
      WorkerControl_init_def set_status_def add_def ConversationStore_init_def)
    (rule exI, intro conjI, rule refl, simp_all)

lemma env_click_facts:
  "capture_result env_click = Inr shot_demo" "invoke_result env_click = Inr reply_click"
  "parsed_predictions reply_click = pred_click # []" "fails env_click c = None"
  "activate_result env_click = None" "execute_result env_click = Inr []"
  "action_type pred_click = ''error_env'' \<longrightarrow> parse_err_streak w + 1 < 3"
  "action_type pred_click \<noteq> ''finished''"
  "action_type pred_click \<noteq> ''call_user''" "clock env_click = 5"
  "prediction reply_click = ''click(start_box=(500,500))''"
  "sent_image env_click shot_demo = ''AAAA''"
  "screen_calls env_click shot_demo n = [Capture, WriteStep n ''screenshot'', SmartResize 100 200]"
  by (simp_all add: env_click_def reply_click_def pred_click_def shot_demo_def sent_image_def
      screen_calls_def resizes_def)

lemma build_messages_fields:
  "system w = sy \<Longrightarrow> conversation w = cv \<Longrightarrow>
   build_messages w b =
     [TextMsg ''system'' sy] @ map (\<lambda>(r, t). TextMsg r t) (to_openai_messages cv False 8)
     @ [VisionMsg ''user'' ''Current screen. Decide next action.'' (''data:image/jpeg;base64,'' @ b)]"
  by (simp add: build_messages_def)

lemma messages_first:
  "to_openai_messages
     \<lparr>items = [\<lparr>role = ''system'', item_text = ''sys'', ts = 0, meta = []\<rparr>,
               \<lparr>role = ''user'', item_text = ''open settings'', ts = 0, meta = []\<rparr>]\<rparr> False 8 =
   [(''user'', ''open settings'')]"
  by (simp add: to_openai_messages_def tail_items_by_rounds_def Let_def)

lemma messages_second:
  "to_openai_messages
     (add \<lparr>items = [\<lparr>role = ''system'', item_text = ''sys'', ts = 0, meta = []\<rparr>,
                    \<lparr>role = ''user'', item_text = ''open settings'', ts = 0, meta = []\<rparr>]\<rparr>
        ''assistant'' ''click(start_box=(500,500))'' 5 []) False 8 =
   [(''user'', ''open settings''), (''assistant'', ''click(start_box=(500,500))'')]"
  by (simp add: to_openai_messages_def tail_items_by_rounds_def add_def Let_def)

text \<open>
  The worker of the example for the streak stands before its third cycle: its run
  began with two replies that did not parse.
\<close>

lemma env_demo_facts:
  "capture_result env_demo = Inr shot_demo" "invoke_result env_demo = Inr reply_demo"
  "parsed_predictions reply_demo = pred_error # []" "fails env_demo c = None"
  "activate_result env_demo = None" "execute_result env_demo = Inr []"
  "action_type pred_error = ''error_env''"
  "action_type pred_error \<noteq> ''finished''"
  "action_type pred_error \<noteq> ''call_user''" "polls env_demo = []"
  by (simp_all add: env_demo_def reply_demo_def pred_error_def)

lemma worker_demo_state:
  "control worker_demo = \<lparr>status = RUNNING, paused = False, stopped = False, injected = []\<rparr>"
  "step worker_demo = 2" "parse_err_streak worker_demo = 2"
  "max_loop_count (cfg worker_demo) = 100"
proof -
  from run_started [of "[env_demo, env_demo]"] obtain w0 where
    r: "run ''open settings'' None env_pre [env_demo, env_demo] worker_init
          = run_loop [env_demo, env_demo] w0"
    and w0: "control w0 = \<lparr>status = RUNNING, paused = False, stopped = False, injected = []\<rparr>"
      "step w0 = 0" "cfg w0 = cfg worker_init" "parse_err_streak w0 = 0"
    by blast
  have lim: "max_loop_count (cfg worker_init) = 100"
    by (simp add: worker_init_def)
  have g1: "begin_cycle env_demo w0 = Inr (Proceed, w0\<lparr>step := step w0 + 1\<rparr>)"
    using w0 lim by (intro begin_cycle_plain) simp_all
  from cycle_executes [OF g1 env_demo_facts(1,2,3) _ _ env_demo_facts(8,9,5,6)] w0(4)
  obtain w1 where c1: "cycle env_demo w0 = Inr (Next, w1)"
    and w1: "control w1 = set_status (control w0) RUNNING" "step w1 = 1"
      "cfg w1 = cfg worker_init" "parse_err_streak w1 = 1"
    using w0 by (auto simp: env_demo_facts)
  have ctl1: "control w1 = \<lparr>status = RUNNING, paused = False, stopped = False, injected = []\<rparr>"
    using w1(1) w0(1) by (simp add: set_status_def)
  have g2: "begin_cycle env_demo w1 = Inr (Proceed, w1\<lparr>step := step w1 + 1\<rparr>)"
    using w1(2,3) ctl1 lim by (intro begin_cycle_plain) simp_all
  from cycle_executes [OF g2 env_demo_facts(1,2,3) _ _ env_demo_facts(8,9,5,6)] w1(4)
  obtain w2 where c2: "cycle env_demo w1 = Inr (Next, w2)"
    and w2: "control w2 = set_status (control w1) RUNNING" "step w2 = 2"
      "cfg w2 = cfg worker_init" "parse_err_streak w2 = 2"
    using w1(2,3) by (auto simp: env_demo_facts)
  from r c1 c2 have eq: "worker_demo = w2"
    by (simp add: worker_demo_def state_of_def)
  show "control worker_demo = \<lparr>status = RUNNING, paused = False, stopped = False, injected = []\<rparr>"
    "step worker_demo = 2" "parse_err_streak worker_demo = 2"
    "max_loop_count (cfg worker_demo) = 100"
    using w2 ctl1 lim by (simp_all add: eq set_status_def)
qed

lemma begin_cycle_demo: "begin_cycle env_demo worker_demo = Inr (Proceed, worker_demo\<lparr>step := 3\<rparr>)"
  using begin_cycle_plain [of worker_demo env_demo]
  by (simp add: worker_demo_state)

theorem parse_error_streak_spec_witness:
  "begin_cycle env_demo worker_demo = Inr (Proceed, worker_demo\<lparr>step := 3\<rparr>)
   \<and> capture_result env_demo = Inr shot_demo \<and> invoke_result env_demo = Inr reply_demo
   \<and> parsed_predictions reply_demo = pred_error # []
   \<and> fails env_demo (WriteStep 3 ''screenshot'') = None
   \<and> fails env_demo (WriteStep 3 ''raw_model_text'') = None
   \<and> fails env_demo (LogEvent ''model'') = None
   \<and> fails env_demo (LogConversation ''assistant'' (prediction reply_demo)) = None
   \<and> fails env_demo (WriteStep 3 ''action'') = None
   \<and> action_type pred_error = ''error_env'' \<and> 3 \<le> parse_err_streak worker_demo + 1
   \<and> (\<exists>w'. cycle env_demo worker_demo = Inr (Next, w') \<and> parse_err_streak w' = 3
          \<and> status (control w') = HANG \<and> paused (control w'))
   \<and> action_type pred_click \<noteq> ''error_env''
   \<and> note_parse env_demo pred_click worker_demo = Inr (Proceed, worker_demo\<lparr>parse_err_streak := 0\<rparr>)
   \<and> parse_err_streak (worker_demo\<lparr>parse_err_streak := 0\<rparr>) + 1 < 3
   \<and> (\<exists>w'. note_parse env_demo pred_error (worker_demo\<lparr>parse_err_streak := 0\<rparr>) = Inr (Proceed, w')
          \<and> parse_err_streak w' = 1)"
proof -
  have h: "capture_result env_demo = Inr shot_demo" "invoke_result env_demo = Inr reply_demo"
    "parsed_predictions reply_demo = pred_error # []" "action_type pred_error = ''error_env''"
    "3 \<le> parse_err_streak worker_demo + 1" "action_type pred_click \<noteq> ''error_env''"
    "parse_err_streak (worker_demo\<lparr>parse_err_streak := 0\<rparr>) + 1 < 3"
    "parse_err_streak worker_demo = 2"
    by (simp_all add: env_demo_def reply_demo_def pred_error_def worker_demo_state pred_click_def)
  have rec: "\<forall>c\<in>set (WriteStep (step (worker_demo\<lparr>step := 3\<rparr>)) ''screenshot''
                  # reply_calls reply_demo (step (worker_demo\<lparr>step := 3\<rparr>))).
          fails env_demo c = None"
    by (simp add: env_demo_def)
  from parse_error_streak_spec [where pred = pred_error and env = env_demo and ws = worker_demo
      and wg = "worker_demo\<lparr>step := 3\<rparr>" and shot = shot_demo and reply = reply_demo
      and others = "[]" and envs = "[]" and w = "worker_demo\<lparr>parse_err_streak := 0\<rparr>"]
    begin_cycle_demo h rec
  have a: "\<exists>w'. cycle env_demo worker_demo = Inr (Next, w') \<and> parse_err_streak w' = 3
          \<and> status (control w') = HANG \<and> paused (control w')"
    and b: "\<exists>w'. note_parse env_demo pred_error (worker_demo\<lparr>parse_err_streak := 0\<rparr>) = Inr (Proceed, w')
          \<and> parse_err_streak w' = 1"
    by auto
  from parse_error_streak_spec [where pred = pred_click and env = env_demo and w = worker_demo] h
  have c: "note_parse env_demo pred_click worker_demo = Inr (Proceed, worker_demo\<lparr>parse_err_streak := 0\<rparr>)"
    by simp
  from a b c h begin_cycle_demo show ?thesis by (simp add: env_demo_facts)
qed

text \<open>
  The router as the loop would build it, following the usage that \<^verbatim>\<open>router.py\<close>
  documents: a screen whose action was recorded is a cache hit when it is seen again.
\<close>

lemma record_then_hit:
  "\<exists>rt. router_record (L0Router_init 5 3) (Some fp) [pred_click] post 1 = Inr rt
        \<and> try_cache rt (Some fp) 2 = Some 0"
  by (simp add: router_record_def should_cache_actions_def UNCACHEABLE_ACTIONS_def
      pred_click_def L0Router_init_def L0Cache_init_def store_def setitem_new_def new_entry_def
      try_cache_def lookup_def hamming_distance_zero_iff [THEN iffD2])

text \<open>
  C1. The claim has the loop fingerprint the captured screen and try the cache before
  it invokes the model, and replay a hit without invoking the model. The code does
  not: the worker builds no router, and a cycle goes from the capture straight to the
  model. In a run on a screen that stays the same for two cycles, with the model
  answering a click each time and every collaborator succeeding, the second cycle sees
  the screen whose (cacheable) click the first cycle executed, a cache hit by the
  claim; the calls of the run show the model invoked in both cycles.
\<close>

theorem run_same_screen_calls:
  "calls (state_of (run ''open settings'' None env_pre [env_click, env_click] worker_init)) =
     [MonitorStart, LaunchApp, LogConversation ''system'' ''sys'',
      LogConversation ''user'' ''open settings'',
      Capture, WriteStep 1 ''screenshot'', SmartResize 100 200,
      InvokeModel
        [TextMsg ''system'' ''sys'', TextMsg ''user'' ''open settings'',
         VisionMsg ''user'' ''Current screen. Decide next action.''
           ''data:image/jpeg;base64,AAAA''],
      WriteStep 1 ''raw_model_text'', LogEvent ''model'',
      LogConversation ''assistant'' ''click(start_box=(500,500))'', WriteStep 1 ''action'',
      ActivateApp, ExecuteAction pred_click, WriteStep 1 ''exec_result'', LogEvent ''exec'', Sleep,
      Capture, WriteStep 2 ''screenshot'', SmartResize 100 200,
      InvokeModel
        [TextMsg ''system'' ''sys'', TextMsg ''user'' ''open settings'',
         TextMsg ''assistant'' ''click(start_box=(500,500))'',
         VisionMsg ''user'' ''Current screen. Decide next action.''
           ''data:image/jpeg;base64,AAAA''],
      WriteStep 2 ''raw_model_text'', LogEvent ''model'',
      LogConversation ''assistant'' ''click(start_box=(500,500))'', WriteStep 2 ''action'',
      ActivateApp, ExecuteAction pred_click, WriteStep 2 ''exec_result'', LogEvent ''exec'', Sleep]"
proof -
  let ?cv = "\<lparr>items = [\<lparr>role = ''system'', item_text = ''sys'', ts = 0, meta = []\<rparr>,
                       \<lparr>role = ''user'', item_text = ''open settings'', ts = 0, meta = []\<rparr>]\<rparr>"
  let ?click = "''click(start_box=(500,500))''"
  from run_started [of "[env_click, env_click]"] obtain w0 where
    r: "run ''open settings'' None env_pre [env_click, env_click] worker_init
          = run_loop [env_click, env_click] w0"
    and w0: "control w0 = \<lparr>status = RUNNING, paused = False, stopped = False, injected = []\<rparr>"
      "step w0 = 0" "cfg w0 = cfg worker_init" "system w0 = ''sys''" "conversation w0 = ?cv"
      "calls w0 = [MonitorStart, LaunchApp, LogConversation ''system'' ''sys'',
                   LogConversation ''user'' ''open settings'']"
    by blast
  have lim: "max_loop_count (cfg worker_init) = 100"
    by (simp add: worker_init_def)
  have g1: "begin_cycle env_click w0 = Inr (Proceed, w0\<lparr>step := step w0 + 1\<rparr>)"
    using w0 lim by (intro begin_cycle_plain) simp_all
  from cycle_executes [OF g1 env_click_facts(1,2,3) _ env_click_facts(7,8,9,5,6)]
  obtain w1 where c1: "cycle env_click w0 = Inr (Next, w1)"
    and w1: "calls w1 = calls w0 @ [Capture, WriteStep 1 ''screenshot'', SmartResize 100 200,
        InvokeModel (build_messages (w0\<lparr>step := step w0 + 1\<rparr>) ''AAAA'')]
        @ reply_calls reply_click 1
        @ [ActivateApp, ExecuteAction pred_click, WriteStep 1 ''exec_result'', LogEvent ''exec'',
           Sleep]"
      "control w1 = set_status (control w0) RUNNING"
      "conversation w1 = add ?cv ''assistant'' ?click 5 []"
      "step w1 = 1" "cfg w1 = cfg worker_init" "system w1 = ''sys''"
    using w0 by (auto simp: env_click_facts)
  have ctl1: "control w1 = \<lparr>status = RUNNING, paused = False, stopped = False, injected = []\<rparr>"
    using w1(2) w0(1) by (simp add: set_status_def)
  have g2: "begin_cycle env_click w1 = Inr (Proceed, w1\<lparr>step := step w1 + 1\<rparr>)"
    using w1(4,5) ctl1 lim by (intro begin_cycle_plain) simp_all
  from cycle_executes [OF g2 env_click_facts(1,2,3) _ env_click_facts(7,8,9,5,6)]
  obtain w2 where c2: "cycle env_click w1 = Inr (Next, w2)"
    and w2: "calls w2 = calls w1 @ [Capture, WriteStep 2 ''screenshot'', SmartResize 100 200,
        InvokeModel (build_messages (w1\<lparr>step := step w1 + 1\<rparr>) ''AAAA'')]
        @ reply_calls reply_click 2
        @ [ActivateApp, ExecuteAction pred_click, WriteStep 2 ''exec_result'', LogEvent ''exec'',
           Sleep]"
    using w1 by (auto simp: env_click_facts)
  have m1: "build_messages (w0\<lparr>step := step w0 + 1\<rparr>) ''AAAA'' =
      [TextMsg ''system'' ''sys'', TextMsg ''user'' ''open settings'',
       VisionMsg ''user'' ''Current screen. Decide next action.'' ''data:image/jpeg;base64,AAAA'']"
    using w0 by (simp add: build_messages_fields [where sy = "''sys''" and cv = ?cv] messages_first)
  have m2: "build_messages (w1\<lparr>step := step w1 + 1\<rparr>) ''AAAA'' =
      [TextMsg ''system'' ''sys'', TextMsg ''user'' ''open settings'',
       TextMsg ''assistant'' ?click,
       VisionMsg ''user'' ''Current screen. Decide next action.'' ''data:image/jpeg;base64,AAAA'']"
    using w1
    by (simp add: build_messages_fields
        [where sy = "''sys''" and cv = "add ?cv ''assistant'' ?click 5 []"] messages_second)
  from r c1 c2 have "state_of (run ''open settings'' None env_pre [env_click, env_click] worker_init)
      = w2"
    by (simp add: state_of_def)
  with w2 w1(1) w0(6) m1 m2 show ?thesis
    by (simp add: reply_calls_def env_click_facts)
qed


end
